theory Spec2Isabelle
  imports Complex_Main "HOL-Library.Multiset"
begin

section \<open>The primal-dual active-set solver of \<^verbatim>\<open>pdas_sg2.c\<close>\<close>

text \<open>
  The embedding follows \<^verbatim>\<open>src/spatialDenoising/l1tf/solvers/C_pdas/pdas_sg2.c\<close>.

  \<^item> A \<^verbatim>\<open>double\<close> is a \<^typ>\<open>real\<close>: arithmetic is exact, there is no rounding, no
    infinity and no NaN.  The comparison \<^verbatim>\<open>z[i] == 1\<close> of the source is equality
    of reals.
  \<^item> An array is a list; \<^verbatim>\<open>a[i] = v\<close> is \<open>a[i := v]\<close> and \<^verbatim>\<open>a[i]\<close> is \<open>a ! i\<close>.
    The theorems carry the buffer lengths of the \<^verbatim>\<open>malloc\<close> calls as hypotheses,
    so that every access they talk about is in range.
  \<^item> The \<^verbatim>\<open>int\<close> indices and counters of the source never go below zero when
    \<open>2 \<le> n\<close>; they are \<^typ>\<open>nat\<close>.  The two markers \<^verbatim>\<open>previous\<close> and
    \<^verbatim>\<open>two_previous\<close> start at \<open>-3\<close> and are \<^typ>\<open>int\<close>.
  \<^item> A \<^verbatim>\<open>for\<close> loop over \<open>i = lo, \<dots>, hi - 1\<close> is a \<^const>\<open>fold\<close> of its body over
    \<open>[lo..<hi]\<close>; a pointer that the loop advances is an offset in the loop state.
  \<^item> The two library routines the file calls, \<^verbatim>\<open>LAPACKE_dpbsv\<close> and \<^verbatim>\<open>qsort\<close>, are
    parameters of the functions that call them.
\<close>

subsection \<open>The macros\<close>

text \<open>\<^verbatim>\<open>#define max(x,y) ((x)>(y)?(x):(y))\<close> and \<^verbatim>\<open>#define min(x,y) ((x)<(y)?(x):(y))\<close>.\<close>

definition c_max :: "'a::linorder \<Rightarrow> 'a \<Rightarrow> 'a" where
  "c_max a c = (if a > c then a else c)"

definition c_min :: "'a::linorder \<Rightarrow> 'a \<Rightarrow> 'a" where
  "c_min a c = (if a < c then a else c)"

text \<open>The \<^verbatim>\<open>round\<close> of \<^verbatim>\<open>math.h\<close>: to the nearest integer, halves away from zero.\<close>

definition c_round :: "real \<Rightarrow> int" where
  "c_round r = (if r < 0 then - \<lfloor>- r + 1 / 2\<rfloor> else \<lfloor>r + 1 / 2\<rfloor>)"

subsection \<open>Matrix operators\<close>

text \<open>
  \<^verbatim>\<open>Dx(n, x, y)\<close>: the loop advances \<^verbatim>\<open>x\<close> and \<^verbatim>\<open>y\<close>; the state is
  (offset of \<^verbatim>\<open>x\<close>, offset of \<^verbatim>\<open>y\<close>, contents of \<^verbatim>\<open>y\<close>).
\<close>

definition Dx_body :: "real list \<Rightarrow> nat \<Rightarrow> nat \<times> nat \<times> real list \<Rightarrow> nat \<times> nat \<times> real list" where
  "Dx_body x i = (\<lambda>(px, py, y).
     (px + 1, py + 1, y[py := - (x ! px) + x ! (px + 1) + x ! (px + 1) - x ! (px + 2)]))"

definition Dx :: "nat \<Rightarrow> real list \<Rightarrow> real list \<Rightarrow> real list" where
  "Dx n x y = snd (snd (fold (Dx_body x) [0..<n - 2] (0, 0, y)))"

text \<open>
  \<^verbatim>\<open>DTx(n, x, y)\<close>: \<^verbatim>\<open>x\<close> has \<open>n\<close> entries and \<^verbatim>\<open>y\<close> has \<open>n + 2\<close>.  The
  state is (offset of \<^verbatim>\<open>x\<close>, offset of \<^verbatim>\<open>y\<close>, contents of \<^verbatim>\<open>y\<close>).
\<close>

definition DTx_body :: "real list \<Rightarrow> nat \<Rightarrow> nat \<times> nat \<times> real list \<Rightarrow> nat \<times> nat \<times> real list" where
  "DTx_body x i = (\<lambda>(px, py, y).
     (px + 1, py + 1, y[py := - (x ! px) + x ! (px + 1) + x ! (px + 1) - x ! (px + 2)]))"

definition DTx :: "nat \<Rightarrow> real list \<Rightarrow> real list \<Rightarrow> real list" where
  "DTx n x y =
     (let y = y[0 := - (x ! 0)];
          y = y[1 := x ! 0 + x ! 0 - x ! 1];
          (px, py, y) = fold (DTx_body x) [2..<n] (0, 2, y);
          y = y[py := - (x ! px) + x ! (px + 1) + x ! (px + 1)];
          y = y[py + 1 := - (x ! (px + 1))]
      in y)"

subsection \<open>The primal update\<close>

text \<open>
  \<^verbatim>\<open>update_primal(n, x, y, z, lambda)\<close>.  The first two statements advance
  \<^verbatim>\<open>x\<close> and \<^verbatim>\<open>y\<close> to offset 2 and leave \<^verbatim>\<open>z\<close> at offset 0; the loop advances
  all three.  The loop state is (offset of \<^verbatim>\<open>x\<close>, offset of \<^verbatim>\<open>y\<close>, offset of
  \<^verbatim>\<open>z\<close>, contents of \<^verbatim>\<open>x\<close>).
\<close>

definition update_primal_body ::
  "real list \<Rightarrow> real list \<Rightarrow> real \<Rightarrow> nat \<Rightarrow> nat \<times> nat \<times> nat \<times> real list \<Rightarrow> nat \<times> nat \<times> nat \<times> real list" where
  "update_primal_body y z lambda i = (\<lambda>(px, py, pz, x).
     (px + 1, py + 1, pz + 1,
      x[px := y ! py + ((z ! pz - z ! (pz + 1) - z ! (pz + 1) + z ! (pz + 2)) * lambda)]))"

definition update_primal :: "nat \<Rightarrow> real list \<Rightarrow> real list \<Rightarrow> real list \<Rightarrow> real \<Rightarrow> real list" where
  "update_primal n x y z lambda =
     (let x = x[0 := y ! 0 + (z ! 0 * lambda)];
          x = x[1 := y ! 1 + ((z ! 1 - z ! 0 - z ! 0) * lambda)];
          (px, py, pz, x) = fold (update_primal_body y z lambda) [2..<n - 2] (2, 2, 0, x);
          x = x[px := y ! py + ((z ! pz - z ! (pz + 1) - z ! (pz + 1)) * lambda)];
          x = x[px + 1 := y ! (py + 1) + (z ! (pz + 1) * lambda)]
      in x)"

subsection \<open>The dual update\<close>

text \<open>
  \<^verbatim>\<open>update_dual\<close> has three loops around the call of the banded solver.  The
  first computes \<^verbatim>\<open>div_zi\<close> and counts the active coordinates; its state is
  (\<^verbatim>\<open>k\<close>, \<^verbatim>\<open>div_zi\<close>).
\<close>

definition update_dual_div_body :: "real list \<Rightarrow> nat \<Rightarrow> nat \<times> real list \<Rightarrow> nat \<times> real list" where
  "update_dual_div_body z i = (\<lambda>(k, div_zi).
     (let div_zi = div_zi[i + 2 := 0] in
      if z ! i = 1 \<or> z ! i = - 1 then
        (let k = k - 1;
             div_zi = div_zi[i := div_zi ! i - z ! i];
             div_zi = div_zi[i + 1 := div_zi ! (i + 1) + 2 * z ! i];
             div_zi = div_zi[i + 2 := div_zi ! (i + 2) - z ! i]
         in (k, div_zi))
      else (k, div_zi)))"

definition update_dual_div :: "nat \<Rightarrow> real list \<Rightarrow> real list \<Rightarrow> nat \<times> real list" where
  "update_dual_div n z div_zi =
     (let k = n - 2;
          div_zi = div_zi[0 := 0];
          div_zi = div_zi[1 := 0]
      in fold (update_dual_div_body z) [0..<n - 2] (k, div_zi))"

text \<open>
  The second loop fills the band matrix \<^verbatim>\<open>ab\<close> and the target \<^verbatim>\<open>b\<close>; its
  state is (\<^verbatim>\<open>ik\<close>, \<^verbatim>\<open>previous\<close>, \<^verbatim>\<open>two_previous\<close>, \<^verbatim>\<open>ab\<close>, \<^verbatim>\<open>b\<close>).
\<close>

definition update_dual_fill_body ::
  "nat \<Rightarrow> real list \<Rightarrow> real list \<Rightarrow> real \<Rightarrow> real list \<Rightarrow> nat
   \<Rightarrow> nat \<times> int \<times> int \<times> real list \<times> real list \<Rightarrow> nat \<times> int \<times> int \<times> real list \<times> real list" where
  "update_dual_fill_body k y z lambda div_zi i = (\<lambda>(ik, previous, two_previous, ab, b).
     if z ! i \<noteq> 1 \<and> z ! i \<noteq> - 1 then
       (let ab = ab[ik + 2 * k := 6];
            ab = (if int i - previous = 1 then ab[ik + k := - 4]
                  else if int i - previous = 2 then ab[ik + k := 1]
                  else ab[ik + k := 0]);
            ab = (if int i - two_previous = 2 then ab[ik := 1] else ab[ik := 0]);
            two_previous = previous;
            previous = int i;
            b = b[ik := ((y ! (i + 1) + y ! (i + 1) - y ! i - y ! (i + 2)) / lambda)
                        - div_zi ! (i + 1) - div_zi ! (i + 1) + div_zi ! i + div_zi ! (i + 2)];
            ik = ik + 1
        in (ik, previous, two_previous, ab, b))
     else (ik, previous, two_previous, ab, b))"

definition update_dual_fill ::
  "nat \<Rightarrow> nat \<Rightarrow> real list \<Rightarrow> real list \<Rightarrow> real \<Rightarrow> real list \<Rightarrow> real list \<Rightarrow> real list
   \<Rightarrow> real list \<times> real list" where
  "update_dual_fill n k y z lambda div_zi ab b =
     (let (ik, previous, two_previous, ab, b) =
            fold (update_dual_fill_body k y z lambda div_zi) [0..<n - 2] (0, - 3, - 3, ab, b)
      in (ab, b))"

text \<open>The third loop copies the solution into the active coordinates; its state is (\<^verbatim>\<open>ik\<close>, \<^verbatim>\<open>z\<close>).\<close>

definition update_dual_copy_body :: "real list \<Rightarrow> nat \<Rightarrow> nat \<times> real list \<Rightarrow> nat \<times> real list" where
  "update_dual_copy_body b i = (\<lambda>(ik, z).
     if z ! i \<noteq> 1 \<and> z ! i \<noteq> - 1 then (ik + 1, z[i := b ! ik]) else (ik, z))"

definition update_dual_copy :: "nat \<Rightarrow> real list \<Rightarrow> real list \<Rightarrow> real list" where
  "update_dual_copy n b z = snd (fold (update_dual_copy_body b) [0..<n - 2] (0, z))"

text \<open>
  The solver \<^verbatim>\<open>LAPACKE_dpbsv(LAPACK_ROW_MAJOR, 'U', k, 2, 1, ab, k, b, 1)\<close> is the
  parameter \<open>dpbsv\<close>: from \<open>k\<close>, \<^verbatim>\<open>ab\<close> and \<^verbatim>\<open>b\<close> it gives its status and the
  two buffers as it leaves them.
\<close>

type_synonym dpbsv_fun = "nat \<Rightarrow> real list \<Rightarrow> real list \<Rightarrow> int \<times> real list \<times> real list"

record update_dual_result =
  ud_k :: nat
  ud_z :: "real list"
  ud_div_zi :: "real list"
  ud_ab :: "real list"
  ud_b :: "real list"
  ud_result :: int

definition update_dual ::
  "dpbsv_fun \<Rightarrow> nat \<Rightarrow> real list \<Rightarrow> real list \<Rightarrow> real \<Rightarrow> real list \<Rightarrow> real list \<Rightarrow> real list
   \<Rightarrow> update_dual_result" where
  "update_dual dpbsv n y z lambda div_zi ab b =
     (let (k, div_zi) = update_dual_div n z div_zi;
          (ab, b) = update_dual_fill n k y z lambda div_zi ab b;
          (result, ab, b) = dpbsv k ab b;
          z = update_dual_copy n b z
      in \<lparr>ud_k = k, ud_z = z, ud_div_zi = div_zi, ud_ab = ab, ud_b = b, ud_result = result\<rparr>)"

subsection \<open>Violators\<close>

text \<open>
  \<^verbatim>\<open>locate_violators\<close>; the loop state is
  (\<^verbatim>\<open>n_vio\<close>, \<^verbatim>\<open>vio_index\<close>, \<^verbatim>\<open>vio_fitness\<close>, \<^verbatim>\<open>vio_sort\<close>).
\<close>

definition locate_violators_body ::
  "real list \<Rightarrow> real \<Rightarrow> real list \<Rightarrow> nat
   \<Rightarrow> nat \<times> nat list \<times> real list \<times> nat list \<Rightarrow> nat \<times> nat list \<times> real list \<times> nat list" where
  "locate_violators_body z lambda diff_x i = (\<lambda>(n_vio, vio_index, vio_fitness, vio_sort).
     if z ! i = 1 then
       (if diff_x ! i < 0 then
          (n_vio + 1, vio_index[n_vio := i],
           vio_fitness[n_vio := c_max (lambda * \<bar>diff_x ! i\<bar>) 1], vio_sort[n_vio := n_vio])
        else (n_vio, vio_index, vio_fitness, vio_sort))
     else if z ! i = - 1 then
       (if diff_x ! i > 0 then
          (n_vio + 1, vio_index[n_vio := i],
           vio_fitness[n_vio := c_max (lambda * \<bar>diff_x ! i\<bar>) 1], vio_sort[n_vio := n_vio])
        else (n_vio, vio_index, vio_fitness, vio_sort))
     else
       (if z ! i > 1 then
          (n_vio + 1, vio_index[n_vio := i],
           vio_fitness[n_vio := c_max (lambda * \<bar>diff_x ! i\<bar>) \<bar>z ! i\<bar>], vio_sort[n_vio := n_vio])
        else if z ! i < - 1 then
          (n_vio + 1, vio_index[n_vio := i],
           vio_fitness[n_vio := c_max (lambda * \<bar>diff_x ! i\<bar>) \<bar>z ! i\<bar>], vio_sort[n_vio := n_vio])
        else (n_vio, vio_index, vio_fitness, vio_sort)))"

definition locate_violators ::
  "nat \<Rightarrow> real list \<Rightarrow> real \<Rightarrow> real list \<Rightarrow> nat list \<Rightarrow> real list \<Rightarrow> nat list
   \<Rightarrow> nat \<times> nat list \<times> real list \<times> nat list" where
  "locate_violators n z lambda diff_x vio_index vio_fitness vio_sort =
     fold (locate_violators_body z lambda diff_x) [0..<n - 2] (0, vio_index, vio_fitness, vio_sort)"

text \<open>\<^verbatim>\<open>reassign_violators\<close>; the loop state is \<^verbatim>\<open>z\<close>.\<close>

definition reassign_violators_body :: "nat list \<Rightarrow> nat list \<Rightarrow> nat \<Rightarrow> real list \<Rightarrow> real list" where
  "reassign_violators_body vio_index vio_sort i z =
     (if z ! (vio_index ! (vio_sort ! i)) = 1 then z[vio_index ! (vio_sort ! i) := 0]
      else if z ! (vio_index ! (vio_sort ! i)) = - 1 then z[vio_index ! (vio_sort ! i) := 0]
      else if z ! (vio_index ! (vio_sort ! i)) > 1 then z[vio_index ! (vio_sort ! i) := 1]
      else if z ! (vio_index ! (vio_sort ! i)) < - 1 then z[vio_index ! (vio_sort ! i) := - 1]
      else z)"

definition reassign_violators :: "nat \<Rightarrow> real list \<Rightarrow> nat list \<Rightarrow> nat list \<Rightarrow> real list" where
  "reassign_violators n_vio z vio_index vio_sort =
     fold (reassign_violators_body vio_index vio_sort) [0..<n_vio] z"

text \<open>
  The comparator \<^verbatim>\<open>cmp\<close> reads the global \<^verbatim>\<open>vio_fitness\<close>, here its first
  argument.
\<close>

definition cmp :: "real list \<Rightarrow> nat \<Rightarrow> nat \<Rightarrow> int" where
  "cmp vio_fitness ia ib =
     (if vio_fitness ! ia > vio_fitness ! ib then - 1
      else if vio_fitness ! ia < vio_fitness ! ib then 1 else 0)"

subsection \<open>The driver\<close>

text \<open>
  What the driver writes to \<^verbatim>\<open>stderr\<close>, one constructor for each \<^verbatim>\<open>fprintf\<close>:
  the rule and the header printed before the loop, the status line
  \<open>(iter, n_vio, n_active, p)\<close> of an iteration, the two closing lines, and the line
  \<^verbatim>\<open>update_dual\<close> prints when the solver's status is not zero.
\<close>

datatype message =
    Rule_Line
  | Header_Line
  | Status_Line nat nat nat real
  | Solved_Line
  | Maxiter_Line
  | Lapacke_Line int

text \<open>
  The integer divisions \<^verbatim>\<open>1 / n_vio\<close> and \<^verbatim>\<open>(queue_index + 1) % m\<close> trap on a
  zero divisor; this is the only error of the model.
\<close>

datatype error = Division_By_Zero

text \<open>
  The local variables of \<^verbatim>\<open>active_set\<close> with the buffers it allocates, the
  global \<^verbatim>\<open>vio_fitness\<close>, the parameters \<^verbatim>\<open>x\<close>, \<^verbatim>\<open>z\<close> and \<^verbatim>\<open>p\<close> that the
  function changes, and the text written to \<^verbatim>\<open>stderr\<close>.
\<close>

record solver_state =
  st_x :: "real list"
  st_z :: "real list"
  st_p :: real
  st_diff_x :: "real list"
  st_div_zi :: "real list"
  st_vio_fitness :: "real list"
  st_vio_index :: "nat list"
  st_vio_queue :: "nat list"
  st_vio_sort :: "nat list"
  st_queue_index :: nat
  st_min_queue :: nat
  st_min_queue_index :: nat
  st_max_queue :: nat
  st_max_queue_index :: nat
  st_ab :: "real list"
  st_b :: "real list"
  st_n_vio :: nat
  st_n_active :: nat
  st_stderr :: "message list"

text \<open>
  \<^verbatim>\<open>qsort(vio_sort, n_vio, sizeof(int), cmp)\<close> is the parameter \<open>qsort\<close>: from the
  buffer, the number of entries to sort and the comparator it gives the buffer as it
  leaves it.
\<close>

type_synonym qsort_fun = "nat list \<Rightarrow> nat \<Rightarrow> (nat \<Rightarrow> nat \<Rightarrow> int) \<Rightarrow> nat list"

text \<open>Lines 115 to 123: the queue is filled with \<open>n\<close>.\<close>

definition prepare_queue :: "nat \<Rightarrow> nat \<Rightarrow> solver_state \<Rightarrow> solver_state" where
  "prepare_queue n m s =
     (let s = s\<lparr>st_queue_index := 0\<rparr>;
          s = s\<lparr>st_vio_queue := (st_vio_queue s)[0 := n]\<rparr>;
          s = s\<lparr>st_min_queue := n\<rparr>;
          s = s\<lparr>st_min_queue_index := 0\<rparr>;
          s = s\<lparr>st_vio_queue := fold (\<lambda>i q. q[i := n]) [1..<m] (st_vio_queue s)\<rparr>;
          s = s\<lparr>st_max_queue := n\<rparr>;
          s = s\<lparr>st_max_queue_index := m - 1\<rparr>
      in s)"

text \<open>
  The two scans of the queue, lines 153 to 159 (and 171 to 177) and 179 to 185; the
  loop state is the extremum and its index.
\<close>

definition rescan_max :: "nat \<Rightarrow> nat list \<Rightarrow> nat \<Rightarrow> nat \<times> nat" where
  "rescan_max m vio_queue max_queue_index =
     fold (\<lambda>j (max_queue, max_queue_index).
             if vio_queue ! j > max_queue then (vio_queue ! j, j)
             else (max_queue, max_queue_index))
       [0..<m] (0, max_queue_index)"

definition rescan_min :: "nat \<Rightarrow> nat \<Rightarrow> nat list \<Rightarrow> nat \<Rightarrow> nat \<times> nat" where
  "rescan_min n m vio_queue min_queue_index =
     fold (\<lambda>j (min_queue, min_queue_index).
             if vio_queue ! j < min_queue then (vio_queue ! j, j)
             else (min_queue, min_queue_index))
       [0..<m] (n, min_queue_index)"

definition advance_queue_index :: "nat \<Rightarrow> solver_state \<Rightarrow> error + solver_state" where
  "advance_queue_index m s =
     (if m = 0 then Inl Division_By_Zero
      else Inr (s\<lparr>st_queue_index := (st_queue_index s + 1) mod m\<rparr>))"

text \<open>Lines 144 to 189: the safeguard queue and the proportion.\<close>

definition update_queue :: "nat \<Rightarrow> nat \<Rightarrow> real \<Rightarrow> real \<Rightarrow> solver_state \<Rightarrow> error + solver_state" where
  "update_queue n m delta_s delta_e s =
     (if st_n_vio s < st_min_queue s then
        (let s = s\<lparr>st_p := c_min (delta_e * st_p s) 1\<rparr>;
             s = s\<lparr>st_vio_queue := (st_vio_queue s)[st_queue_index s := st_n_vio s]\<rparr>;
             s = s\<lparr>st_min_queue := st_n_vio s\<rparr>;
             s = s\<lparr>st_min_queue_index := st_queue_index s\<rparr>;
             s = (if st_queue_index s = st_max_queue_index s then
                    (let (max_queue, max_queue_index) =
                           rescan_max m (st_vio_queue s) (st_max_queue_index s)
                     in s\<lparr>st_max_queue := max_queue, st_max_queue_index := max_queue_index\<rparr>)
                  else s)
         in advance_queue_index m s)
      else if st_n_vio s \<ge> st_max_queue s then
        (if st_n_vio s = 0 then Inl Division_By_Zero
         else Inr (s\<lparr>st_p := c_max (delta_s * st_p s) (real (1 div st_n_vio s))\<rparr>))
      else
        (let s = s\<lparr>st_vio_queue := (st_vio_queue s)[st_queue_index s := st_n_vio s]\<rparr>;
             s = (if st_queue_index s = st_max_queue_index s then
                    (let (max_queue, max_queue_index) =
                           rescan_max m (st_vio_queue s) (st_max_queue_index s)
                     in s\<lparr>st_max_queue := max_queue, st_max_queue_index := max_queue_index\<rparr>)
                  else if st_queue_index s = st_min_queue_index s then
                    (let (min_queue, min_queue_index) =
                           rescan_min n m (st_vio_queue s) (st_min_queue_index s)
                     in s\<lparr>st_min_queue := min_queue, st_min_queue_index := min_queue_index\<rparr>)
                  else s)
         in advance_queue_index m s))"

text \<open>Lines 134 to 136: the dual update, the primal update and \<open>D x\<close>.\<close>

definition subspace_minimization ::
  "dpbsv_fun \<Rightarrow> nat \<Rightarrow> real list \<Rightarrow> real \<Rightarrow> solver_state \<Rightarrow> solver_state" where
  "subspace_minimization dpbsv n y lambda s =
     (let r = update_dual dpbsv n y (st_z s) lambda (st_div_zi s) (st_ab s) (st_b s);
          s = s\<lparr>st_z := ud_z r, st_div_zi := ud_div_zi r, st_ab := ud_ab r, st_b := ud_b r,
                st_stderr := st_stderr s @ (if ud_result r \<noteq> 0 then [Lapacke_Line (ud_result r)] else []),
                st_n_active := ud_k r\<rparr>;
          s = s\<lparr>st_x := update_primal n (st_x s) y (st_z s) lambda\<rparr>;
          s = s\<lparr>st_diff_x := Dx n (st_x s) (st_diff_x s)\<rparr>
      in s)"

text \<open>Line 141: the call of \<^verbatim>\<open>locate_violators\<close>.\<close>

definition count_violators :: "nat \<Rightarrow> real \<Rightarrow> solver_state \<Rightarrow> solver_state" where
  "count_violators n lambda s =
     (let (n_vio, vio_index, vio_fitness, vio_sort) =
            locate_violators n (st_z s) lambda (st_diff_x s)
              (st_vio_index s) (st_vio_fitness s) (st_vio_sort s)
      in s\<lparr>st_n_vio := n_vio, st_vio_index := vio_index, st_vio_fitness := vio_fitness,
            st_vio_sort := vio_sort\<rparr>)"

text \<open>Lines 192 to 194.\<close>

definition print_status :: "bool \<Rightarrow> nat \<Rightarrow> solver_state \<Rightarrow> solver_state" where
  "print_status verbose iter s =
     (if verbose
      then s\<lparr>st_stderr := st_stderr s @ [Status_Line iter (st_n_vio s) (st_n_active s) (st_p s)]\<rparr>
      else s)"

definition print_line :: "bool \<Rightarrow> message list \<Rightarrow> solver_state \<Rightarrow> solver_state" where
  "print_line verbose msgs s = (if verbose then s\<lparr>st_stderr := st_stderr s @ msgs\<rparr> else s)"

text \<open>Lines 134 to 194: an iteration up to the test of \<^verbatim>\<open>n_vio\<close>.\<close>

definition iteration_head ::
  "dpbsv_fun \<Rightarrow> nat \<Rightarrow> real list \<Rightarrow> real \<Rightarrow> nat \<Rightarrow> real \<Rightarrow> real \<Rightarrow> bool \<Rightarrow> nat
   \<Rightarrow> solver_state \<Rightarrow> error + solver_state" where
  "iteration_head dpbsv n y lambda m delta_s delta_e verbose iter s =
     (case update_queue n m delta_s delta_e
             (count_violators n lambda (subspace_minimization dpbsv n y lambda s)) of
        Inl e \<Rightarrow> Inl e
      | Inr s \<Rightarrow> Inr (print_status verbose iter s))"

text \<open>Line 224: the call of \<^verbatim>\<open>reassign_violators\<close>.\<close>

definition call_reassign_violators :: "solver_state \<Rightarrow> solver_state" where
  "call_reassign_violators s =
     s\<lparr>st_z := reassign_violators (st_n_vio s) (st_z s) (st_vio_index s) (st_vio_sort s)\<rparr>"

text \<open>
  Lines 220 to 224: the sort, the number of violators to reassign, the reassignment.
  The cast \<^verbatim>\<open>(int)\<close> of a rounded value changes nothing.
\<close>

definition update_partition :: "qsort_fun \<Rightarrow> solver_state \<Rightarrow> solver_state" where
  "update_partition qsort s =
     (let s = s\<lparr>st_vio_sort := qsort (st_vio_sort s) (st_n_vio s) (cmp (st_vio_fitness s))\<rparr>;
          s = s\<lparr>st_n_vio := nat (c_max (c_round (st_p s * real (st_n_vio s))) 1)\<rparr>
      in call_reassign_violators s)"

text \<open>
  The loop of lines 131 to 225 with the two exits: status \<open>0\<close> from inside the loop,
  status \<open>-1\<close> after it.
\<close>

function active_set_loop ::
  "dpbsv_fun \<Rightarrow> qsort_fun \<Rightarrow> nat \<Rightarrow> real list \<Rightarrow> real \<Rightarrow> nat \<Rightarrow> real \<Rightarrow> real \<Rightarrow> nat \<Rightarrow> bool
   \<Rightarrow> nat \<Rightarrow> solver_state \<Rightarrow> error + int \<times> solver_state" where
  "active_set_loop dpbsv qsort n y lambda m delta_s delta_e maxiter verbose iter s =
     (if iter \<le> maxiter then
        (case iteration_head dpbsv n y lambda m delta_s delta_e verbose iter s of
           Inl e \<Rightarrow> Inl e
         | Inr s \<Rightarrow>
             if st_n_vio s = 0 then Inr (0, print_line verbose [Solved_Line] s)
             else active_set_loop dpbsv qsort n y lambda m delta_s delta_e maxiter verbose
                    (iter + 1) (update_partition qsort s))
      else Inr (- 1, print_line verbose [Maxiter_Line] s))"
  by pat_completeness auto
termination
  by (relation "measure (\<lambda>(dpbsv, qsort, n, y, lambda, m, delta_s, delta_e, maxiter, verbose, iter, s).
        Suc maxiter - iter)") auto

declare active_set_loop.simps [simp del]

text \<open>
  The state in which the loop starts: \<open>s\<close> holds whatever the locals and the
  allocated buffers hold on entry.
\<close>

definition initial_state ::
  "nat \<Rightarrow> real list \<Rightarrow> real list \<Rightarrow> real \<Rightarrow> nat \<Rightarrow> bool \<Rightarrow> solver_state \<Rightarrow> solver_state" where
  "initial_state n x z p m verbose s =
     print_line verbose [Rule_Line, Header_Line]
       (prepare_queue n m (s\<lparr>st_x := x, st_z := z, st_p := p\<rparr>))"

text \<open>
  \<^verbatim>\<open>active_set\<close>: the status, and the final state, whose \<^const>\<open>st_x\<close> and
  \<^const>\<open>st_z\<close> are what the caller finds in \<^verbatim>\<open>x\<close> and \<^verbatim>\<open>z\<close>.
\<close>

definition active_set ::
  "dpbsv_fun \<Rightarrow> qsort_fun \<Rightarrow> nat \<Rightarrow> real list \<Rightarrow> real \<Rightarrow> real list \<Rightarrow> real list \<Rightarrow> real
   \<Rightarrow> nat \<Rightarrow> real \<Rightarrow> real \<Rightarrow> nat \<Rightarrow> bool \<Rightarrow> solver_state \<Rightarrow> error + int \<times> solver_state" where
  "active_set dpbsv qsort n y lambda x z p m delta_s delta_e maxiter verbose s =
     active_set_loop dpbsv qsort n y lambda m delta_s delta_e maxiter verbose 1
       (initial_state n x z p m verbose s)"

subsection \<open>Instances of the two library routines\<close>

text \<open>
  The theorems below hold for every solver \<open>dpbsv\<close>.  To run the driver on concrete
  inputs the parameter is instantiated with an exact solver: it reads the symmetric
  band matrix from \<^verbatim>\<open>ab\<close> in the layout \<^verbatim>\<open>update_dual\<close> writes (row-major, three
  rows of \<open>k\<close> entries: second superdiagonal, first superdiagonal, main diagonal) and
  solves the system by elimination without pivoting.  With a pivot that is not positive
  it gives the index of the pivot as status and leaves \<^verbatim>\<open>b\<close> alone, as the routine
  does for a matrix that is not positive definite.  It leaves \<^verbatim>\<open>ab\<close> alone; the
  driver never reads \<^verbatim>\<open>ab\<close> after the call.
\<close>

definition band_entry :: "nat \<Rightarrow> real list \<Rightarrow> nat \<Rightarrow> nat \<Rightarrow> real" where
  "band_entry k ab i j =
     (let lo = min i j; hi = max i j
      in if hi - lo \<le> 2 then ab ! ((2 - (hi - lo)) * k + hi) else 0)"

definition band_rows :: "nat \<Rightarrow> real list \<Rightarrow> real list \<Rightarrow> real list list" where
  "band_rows k ab b = map (\<lambda>i. map (band_entry k ab i) [0..<k] @ [b ! i]) [0..<k]"

definition eliminate :: "real list \<Rightarrow> real list \<Rightarrow> real list" where
  "eliminate r q = map2 (\<lambda>a c. c - (hd q / hd r) * a) (tl r) (tl q)"

function solve_rows :: "nat \<Rightarrow> real list list \<Rightarrow> nat + real list" where
  "solve_rows i [] = Inr []"
| "solve_rows i (r # rs) =
     (if hd r \<le> 0 then Inl i
      else (case solve_rows (i + 1) (map (eliminate r) rs) of
              Inl j \<Rightarrow> Inl j
            | Inr xs \<Rightarrow> Inr ((last r - sum_list (map2 (*) (butlast (tl r)) xs)) / hd r # xs)))"
  by pat_completeness auto
termination
  by (relation "measure (\<lambda>(i, rows). length rows)") auto

definition dpbsv_exact :: dpbsv_fun where
  "dpbsv_exact k ab b =
     (case solve_rows 1 (band_rows k ab b) of
        Inl j \<Rightarrow> (int j, ab, b)
      | Inr xs \<Rightarrow> (0, ab, xs @ drop k b))"


text \<open>An instance: insertion sort with the comparator.\<close>

fun insert_by :: "(nat \<Rightarrow> nat \<Rightarrow> int) \<Rightarrow> nat \<Rightarrow> nat list \<Rightarrow> nat list" where
  "insert_by compar a [] = [a]"
| "insert_by compar a (c # cs) =
     (if compar a c \<le> 0 then a # c # cs else c # insert_by compar a cs)"

definition qsort_insertion :: qsort_fun where
  "qsort_insertion base nmemb compar =
     foldr (insert_by compar) (take nmemb base) [] @ drop nmemb base"

section \<open>Specifications, invariants and example inputs\<close>

subsection \<open>The primal update and the adjoint operator\<close>




text \<open>The interior stencil of \<^verbatim>\<open>DTx\<close> and the invariant of its loop.\<close>

definition adjoint_stencil :: "real list \<Rightarrow> nat \<Rightarrow> real" where
  "adjoint_stencil x i = - (x ! (i - 2)) + x ! (i - 1) + x ! (i - 1) - x ! i"

definition adjoint_loop_inv :: "real list \<Rightarrow> real list \<Rightarrow> nat \<Rightarrow> nat \<times> nat \<times> real list \<Rightarrow> bool" where
  "adjoint_loop_inv x y m = (\<lambda>(px, py, y').
     px = m - 2 \<and> py = m \<and> length y' = length y \<and>
     (\<forall>i<length y. y' ! i = (if 2 \<le> i \<and> i < m then adjoint_stencil x i else y ! i)))"

text \<open>The \<open>i\<close>-th coordinate of \<open>D\<^sup>T x\<close> for \<open>x\<close> of length \<open>n\<close> (the output has length \<open>n + 2\<close>).\<close>

definition adjoint_spec :: "nat \<Rightarrow> real list \<Rightarrow> nat \<Rightarrow> real" where
  "adjoint_spec n x i =
     (if i = 0 then - (x ! 0)
      else if i = 1 then x ! 0 + x ! 0 - x ! 1
      else if i < n then adjoint_stencil x i
      else if i = n then - (x ! (n - 2)) + x ! (n - 1) + x ! (n - 1)
      else - (x ! (n - 1)))"

subsection \<open>Violators and their reassignment\<close>

text \<open>
  The three ways in which a dual coordinate violates the optimality conditions, and the
  fitness that is recorded for it.  Comparison with \<open>1\<close> and \<open>- 1\<close> is exact, as in the source.
\<close>

definition is_violator :: "real list \<Rightarrow> real list \<Rightarrow> nat \<Rightarrow> bool" where
  "is_violator z diff_x i \<longleftrightarrow>
     z ! i = 1 \<and> diff_x ! i < 0 \<or>
     z ! i = - 1 \<and> diff_x ! i > 0 \<or>
     z ! i \<noteq> 1 \<and> z ! i \<noteq> - 1 \<and> \<bar>z ! i\<bar> > 1"

definition violator_fitness :: "real list \<Rightarrow> real \<Rightarrow> real list \<Rightarrow> nat \<Rightarrow> real" where
  "violator_fitness z lambda diff_x i =
     (if z ! i = 1 \<or> z ! i = - 1 then max (lambda * \<bar>diff_x ! i\<bar>) 1
      else max (lambda * \<bar>diff_x ! i\<bar>) \<bar>z ! i\<bar>)"

text \<open>The violators among the first \<open>m\<close> coordinates, in increasing order.\<close>

definition violators :: "real list \<Rightarrow> real list \<Rightarrow> nat \<Rightarrow> nat list" where
  "violators z diff_x m = filter (is_violator z diff_x) [0..<m]"

text \<open>Loop invariant of \<^verbatim>\<open>locate_violators\<close>: the buffers beyond the write position are untouched.\<close>

definition locate_loop_inv ::
  "real list \<Rightarrow> real \<Rightarrow> real list \<Rightarrow> nat list \<Rightarrow> real list \<Rightarrow> nat list \<Rightarrow> nat
   \<Rightarrow> nat \<times> nat list \<times> real list \<times> nat list \<Rightarrow> bool" where
  "locate_loop_inv z lambda diff_x vi0 vf0 vs0 m = (\<lambda>(n_vio, vi, vf, vs).
     n_vio = length (violators z diff_x m) \<and>
     length vi = length vi0 \<and> length vf = length vf0 \<and> length vs = length vs0 \<and>
     take n_vio vi = violators z diff_x m \<and>
     take n_vio vf = map (violator_fitness z lambda diff_x) (violators z diff_x m) \<and>
     take n_vio vs = [0..<n_vio] \<and>
     drop n_vio vi = drop n_vio vi0 \<and> drop n_vio vf = drop n_vio vf0 \<and>
     drop n_vio vs = drop n_vio vs0)"

text \<open>The new value that \<^verbatim>\<open>reassign_violators\<close> gives a coordinate with value \<open>v\<close>.\<close>

definition reassign_value :: "real \<Rightarrow> real" where
  "reassign_value v =
     (if v = 1 then 0 else if v = - 1 then 0 else if v > 1 then 1 else if v < - 1 then - 1 else v)"

text \<open>The coordinate addressed by the \<open>i\<close>-th entry of the sort permutation.\<close>

definition selected :: "nat list \<Rightarrow> nat list \<Rightarrow> nat \<Rightarrow> nat" where
  "selected vio_index vio_sort i = vio_index ! (vio_sort ! i)"

subsection \<open>The reduced system of the dual update\<close>

text \<open>
  A coordinate is inactive when it sits at a bound.  \<open>div_spec z m\<close> is \<open>D\<^sup>T\<close> applied to the
  inactive part of the first \<open>m\<close> coordinates of \<open>z\<close>.
\<close>

definition inactive :: "real list \<Rightarrow> nat \<Rightarrow> bool" where
  "inactive z i \<longleftrightarrow> z ! i = 1 \<or> z ! i = - 1"

definition inactive_part :: "real list \<Rightarrow> nat \<Rightarrow> nat \<Rightarrow> real" where
  "inactive_part z m i = (if i < m \<and> inactive z i then z ! i else 0)"

definition div_spec :: "real list \<Rightarrow> nat \<Rightarrow> nat \<Rightarrow> real" where
  "div_spec z m j =
     - inactive_part z m j
     + 2 * (if 1 \<le> j then inactive_part z m (j - 1) else 0)
     - (if 2 \<le> j then inactive_part z m (j - 2) else 0)"

text \<open>Loop invariant of the first loop of \<^verbatim>\<open>update_dual\<close>.\<close>

definition div_loop_inv :: "nat \<Rightarrow> real list \<Rightarrow> real list \<Rightarrow> nat \<Rightarrow> nat \<times> real list \<Rightarrow> bool" where
  "div_loop_inv N z dv0 m = (\<lambda>(k, dv).
     k = N - length (filter (inactive z) [0..<m]) \<and> length dv = length dv0 \<and>
     (\<forall>j<length dv0. dv ! j = (if j < m + 2 then div_spec z m j else dv0 ! j)))"

text \<open>
  The active coordinates in increasing order, the previous and second previous active
  coordinate seen by the walk (\<open>- 3\<close> before there is one), and the band entries and right-hand
  side that belong to the \<open>t\<close>-th active coordinate.
\<close>

definition active_list :: "real list \<Rightarrow> nat \<Rightarrow> nat list" where
  "active_list z m = filter (\<lambda>i. \<not> inactive z i) [0..<m]"

definition band_prev :: "nat list \<Rightarrow> nat \<Rightarrow> int" where
  "band_prev acts t = (if t = 0 then - 3 else int (acts ! (t - 1)))"

definition band_prev2 :: "nat list \<Rightarrow> nat \<Rightarrow> int" where
  "band_prev2 acts t = (if t < 2 then - 3 else int (acts ! (t - 2)))"

definition super1 :: "nat list \<Rightarrow> nat \<Rightarrow> real" where
  "super1 acts t =
     (if int (acts ! t) - band_prev acts t = 1 then - 4
      else if int (acts ! t) - band_prev acts t = 2 then 1 else 0)"

definition super2 :: "nat list \<Rightarrow> nat \<Rightarrow> real" where
  "super2 acts t = (if int (acts ! t) - band_prev2 acts t = 2 then 1 else 0)"

definition target :: "real list \<Rightarrow> real \<Rightarrow> real list \<Rightarrow> nat \<Rightarrow> real" where
  "target y lambda dv i =
     (2 * y ! (i + 1) - y ! i - y ! (i + 2)) / lambda - 2 * dv ! (i + 1) + dv ! i + dv ! (i + 2)"

text \<open>Loop invariant of the second loop of \<^verbatim>\<open>update_dual\<close>.\<close>

definition fill_loop_inv ::
  "nat \<Rightarrow> real list \<Rightarrow> real list \<Rightarrow> real \<Rightarrow> real list \<Rightarrow> real list \<Rightarrow> real list \<Rightarrow> nat
   \<Rightarrow> nat \<times> int \<times> int \<times> real list \<times> real list \<Rightarrow> bool" where
  "fill_loop_inv K y z lambda dv ab0 b0 m = (\<lambda>(ik, previous, two_previous, ab, b).
     ik = length (active_list z m) \<and>
     previous = band_prev (active_list z m) ik \<and>
     two_previous = band_prev2 (active_list z m) ik \<and>
     length ab = length ab0 \<and> length b = length b0 \<and>
     (\<forall>t<ik. ab ! (t + 2 * K) = 6 \<and> ab ! (t + K) = super1 (active_list z m) t \<and>
        ab ! t = super2 (active_list z m) t \<and>
        b ! t = target y lambda dv (active_list z m ! t)))"

subsection \<open>The safeguard queue\<close>

text \<open>
  The invariant of the safeguard queue between iterations: the cached extrema are the true
  extrema of the queue, the cached positions hold them, and a count is at least \<open>1\<close>.
\<close>

definition queue_inv :: "nat \<Rightarrow> nat \<Rightarrow> solver_state \<Rightarrow> bool" where
  "queue_inv n m s \<longleftrightarrow>
     length (st_vio_queue s) = m \<and> st_queue_index s < m \<and>
     st_min_queue_index s < m \<and> st_max_queue_index s < m \<and>
     st_vio_queue s ! st_min_queue_index s = st_min_queue s \<and>
     st_vio_queue s ! st_max_queue_index s = st_max_queue s \<and>
     (\<forall>j<m. st_min_queue s \<le> st_vio_queue s ! j \<and> st_vio_queue s ! j \<le> st_max_queue s \<and>
            1 \<le> st_vio_queue s ! j \<and> st_vio_queue s ! j \<le> n)"

text \<open>Whether the violator count of a state is pushed into the queue.\<close>

definition pushes :: "solver_state \<Rightarrow> bool" where
  "pushes s \<longleftrightarrow> st_n_vio s < st_min_queue s \<or> \<not> st_max_queue s \<le> st_n_vio s"

subsection \<open>Reachable states of the driver\<close>

text \<open>
  One full iteration of the loop of \<^verbatim>\<open>active_set\<close>, the state at the start of iteration
  \<open>k + 1\<close>, the violator count that iteration \<open>k + 1\<close> finds, and the counts pushed so far.
  \<open>None\<close> means that the loop has been left before.
\<close>

definition iteration ::
  "dpbsv_fun \<Rightarrow> qsort_fun \<Rightarrow> nat \<Rightarrow> real list \<Rightarrow> real \<Rightarrow> nat \<Rightarrow> real \<Rightarrow> real \<Rightarrow> bool \<Rightarrow> nat
   \<Rightarrow> solver_state \<Rightarrow> solver_state option" where
  "iteration dpbsv qsort n y lambda m delta_s delta_e verbose iter s =
     (case iteration_head dpbsv n y lambda m delta_s delta_e verbose iter s of
        Inl e \<Rightarrow> None
      | Inr s' \<Rightarrow> if st_n_vio s' = 0 then None else Some (update_partition qsort s'))"

fun state_before ::
  "dpbsv_fun \<Rightarrow> qsort_fun \<Rightarrow> nat \<Rightarrow> real list \<Rightarrow> real \<Rightarrow> nat \<Rightarrow> real \<Rightarrow> real \<Rightarrow> bool
   \<Rightarrow> solver_state \<Rightarrow> nat \<Rightarrow> solver_state option" where
  "state_before dpbsv qsort n y lambda m delta_s delta_e verbose s0 0 = Some s0"
| "state_before dpbsv qsort n y lambda m delta_s delta_e verbose s0 (Suc k) =
     (case state_before dpbsv qsort n y lambda m delta_s delta_e verbose s0 k of
        None \<Rightarrow> None
      | Some s \<Rightarrow> iteration dpbsv qsort n y lambda m delta_s delta_e verbose (Suc k) s)"

definition found_n_vio ::
  "dpbsv_fun \<Rightarrow> qsort_fun \<Rightarrow> nat \<Rightarrow> real list \<Rightarrow> real \<Rightarrow> nat \<Rightarrow> real \<Rightarrow> real \<Rightarrow> bool
   \<Rightarrow> solver_state \<Rightarrow> nat \<Rightarrow> nat option" where
  "found_n_vio dpbsv qsort n y lambda m delta_s delta_e verbose s0 k =
     (case state_before dpbsv qsort n y lambda m delta_s delta_e verbose s0 k of
        None \<Rightarrow> None
      | Some s \<Rightarrow>
          (case iteration_head dpbsv n y lambda m delta_s delta_e verbose (Suc k) s of
             Inl e \<Rightarrow> None
           | Inr s' \<Rightarrow> Some (st_n_vio s')))"

text \<open>The state after the subspace minimisation and the search for violators.\<close>

definition located :: "dpbsv_fun \<Rightarrow> nat \<Rightarrow> real list \<Rightarrow> real \<Rightarrow> solver_state \<Rightarrow> solver_state" where
  "located dpbsv n y lambda s = count_violators n lambda (subspace_minimization dpbsv n y lambda s)"

fun pushed_counts ::
  "dpbsv_fun \<Rightarrow> qsort_fun \<Rightarrow> nat \<Rightarrow> real list \<Rightarrow> real \<Rightarrow> nat \<Rightarrow> real \<Rightarrow> real \<Rightarrow> bool
   \<Rightarrow> solver_state \<Rightarrow> nat \<Rightarrow> nat list" where
  "pushed_counts dpbsv qsort n y lambda m delta_s delta_e verbose s0 0 = []"
| "pushed_counts dpbsv qsort n y lambda m delta_s delta_e verbose s0 (Suc k) =
     (case state_before dpbsv qsort n y lambda m delta_s delta_e verbose s0 k of
        None \<Rightarrow> pushed_counts dpbsv qsort n y lambda m delta_s delta_e verbose s0 k
      | Some s \<Rightarrow>
          if pushes (located dpbsv n y lambda s)
          then pushed_counts dpbsv qsort n y lambda m delta_s delta_e verbose s0 k
                 @ [st_n_vio (located dpbsv n y lambda s)]
          else pushed_counts dpbsv qsort n y lambda m delta_s delta_e verbose s0 k)"

text \<open>The fields of the state that belong to the safeguard queue.\<close>

definition queue_part :: "solver_state \<Rightarrow> nat list \<times> nat \<times> nat \<times> nat \<times> nat \<times> nat" where
  "queue_part s = (st_vio_queue s, st_queue_index s, st_min_queue s, st_min_queue_index s,
     st_max_queue s, st_max_queue_index s)"

text \<open>The queue holds the last \<open>m\<close> pushed counts \<open>h\<close>, the sentinel \<open>n\<close> in slots never written.\<close>

definition queue_history :: "nat \<Rightarrow> nat \<Rightarrow> nat list \<Rightarrow> solver_state \<Rightarrow> bool" where
  "queue_history n m h s \<longleftrightarrow>
     st_queue_index s = length h mod m \<and>
     rotate (st_queue_index s) (st_vio_queue s) = drop (length h) (replicate m n @ h)"



text \<open>The band matrix and right-hand side that \<^verbatim>\<open>update_dual\<close> hands to the solver.\<close>

definition assembled ::
  "nat \<Rightarrow> real list \<Rightarrow> real list \<Rightarrow> real \<Rightarrow> real list \<Rightarrow> real list \<Rightarrow> real list
   \<Rightarrow> real list \<times> real list" where
  "assembled n y z lambda div_zi ab b =
     update_dual_fill n (fst (update_dual_div n z div_zi)) y z lambda
       (snd (update_dual_div n z div_zi)) ab b"



subsection \<open>Example inputs\<close>

text \<open>Buffers as \<^verbatim>\<open>calloc\<close> and a caller would provide them, and runs on small signals.\<close>

definition zeroed_state :: "nat \<Rightarrow> nat \<Rightarrow> solver_state" where
  "zeroed_state n m =
     \<lparr>st_x = [], st_z = [], st_p = 0, st_diff_x = replicate (n - 2) 0,
      st_div_zi = replicate n 0, st_vio_fitness = replicate (n - 2) 0,
      st_vio_index = replicate (n - 2) 0, st_vio_queue = replicate m 0,
      st_vio_sort = replicate (n - 2) 0, st_queue_index = 0, st_min_queue = 0,
      st_min_queue_index = 0, st_max_queue = 0, st_max_queue_index = 0,
      st_ab = replicate (3 * n) 0, st_b = replicate n 0, st_n_vio = 0, st_n_active = 0,
      st_stderr = []\<rparr>"

definition impulse_run :: "nat \<Rightarrow> error + int \<times> solver_state" where
  "impulse_run maxiter =
     active_set dpbsv_exact qsort_insertion 4 [0, 3, 0, 0] 1 [0, 0, 0, 0] [0, 0]
       (1 / 2) 5 (4 / 5) (11 / 10) maxiter True (zeroed_state 4 5)"

definition impulse_start :: solver_state where
  "impulse_start = initial_state 4 [0, 0, 0, 0] [0, 0] (1 / 2) 5 True (zeroed_state 4 5)"

definition warm_start :: "nat \<Rightarrow> solver_state" where
  "warm_start m = initial_state 4 [0, 0, 0, 0] [1, 1] (1 / 10) m True (zeroed_state 4 m)"

definition warm_state :: "nat \<Rightarrow> nat \<Rightarrow> solver_state option" where
  "warm_state m k =
     state_before dpbsv_exact qsort_insertion 4 [0, 0, 0, 16] 1 m (4 / 5) (11 / 10) True
       (warm_start m) k"


definition stagnant_run :: "nat \<Rightarrow> error + int \<times> solver_state" where
  "stagnant_run maxiter =
     active_set dpbsv_exact qsort_insertion 5 [0, 20, 0, 0, 0] 1 [0, 0, 0, 0, 0] [0, 0, 0]
       (1 / 10) 1 (4 / 5) (11 / 10) maxiter True (zeroed_state 5 1)"

section \<open>Proofs\<close>

lemma fold_upt_invariant:
  assumes "a \<le> b" and "P a s"
    and "\<And>i t. a \<le> i \<Longrightarrow> i < b \<Longrightarrow> P i t \<Longrightarrow> P (Suc i) (f i t)"
  shows "P b (fold f [a..<b] s)"
  using assms
proof (induction b rule: dec_induct)
  case base
  then show ?case by simp
next
  case (step k)
  then have "P k (fold f [a..<k] s)" by simp
  with step.hyps step.prems(2) have "P (Suc k) (f k (fold f [a..<k] s))" by simp
  with step.hyps show ?case by simp
qed




lemma adjoint_loop_step:
  assumes "2 \<le> i" and "adjoint_loop_inv x y i t"
  shows "adjoint_loop_inv x y (Suc i) (DTx_body x i t)"
proof -
  obtain j where j: "i = j + 2" using assms(1) by (metis add.commute le_Suc_ex)
  obtain px py y' where t: "t = (px, py, y')" by (metis prod_cases3)
  from assms(2) have inv: "px = j" "py = i" "length y' = length y"
    "\<And>k. k < length y \<Longrightarrow> y' ! k = (if 2 \<le> k \<and> k < i then adjoint_stencil x k else y ! k)"
    by (simp_all add: adjoint_loop_inv_def t j)
  have body: "DTx_body x i t = (Suc j, Suc i, y'[i := adjoint_stencil x i])"
    unfolding t by (simp add: DTx_body_def adjoint_stencil_def inv(1,2)) (simp add: j)
  have "\<And>k. k < length y \<Longrightarrow> y'[i := adjoint_stencil x i] ! k
       = (if 2 \<le> k \<and> k < Suc i then adjoint_stencil x k else y ! k)"
    using assms(1) inv(3,4) by (auto simp: nth_list_update less_Suc_eq)
  then show ?thesis
    unfolding body adjoint_loop_inv_def using inv(3) by (simp add: j)
qed

lemma DTx_loop:
  assumes "2 \<le> m"
  shows "adjoint_loop_inv x y m (fold (DTx_body x) [2..<m] (0, 2, y))"
proof (rule fold_upt_invariant [OF assms])
  show "adjoint_loop_inv x y 2 (0, 2, y)"
    by (simp add: adjoint_loop_inv_def)
qed (rule adjoint_loop_step)

lemma DTx_nth:
  assumes n: "2 \<le> n" and ly: "length y = n + 2"
  shows "length (DTx n x y) = n + 2"
    and "i < n + 2 \<Longrightarrow> DTx n x y ! i = adjoint_spec n x i"
proof -
  define y2 where "y2 = y[0 := - (x ! 0), 1 := x ! 0 + x ! 0 - x ! 1]"
  obtain px py y' where f: "fold (DTx_body x) [2..<n] (0, 2, y2) = (px, py, y')"
    by (metis prod_cases3)
  have ly2: "length y2 = n + 2" by (simp add: y2_def ly)
  have "adjoint_loop_inv x y2 n (px, py, y')"
    using DTx_loop [OF n, of x y2] unfolding f .
  then have inv: "px = n - 2" "py = n" "length y' = n + 2"
    "\<And>k. k < n + 2 \<Longrightarrow> y' ! k = (if 2 \<le> k \<and> k < n then adjoint_stencil x k else y2 ! k)"
    by (simp_all add: adjoint_loop_inv_def ly2)
  have res: "DTx n x y =
      y'[n := - (x ! (n - 2)) + x ! (n - 1) + x ! (n - 1), n + 1 := - (x ! (n - 1))]"
  proof -
    have a: "Suc (n - 2) = n - 1" using n by simp
    show ?thesis
      unfolding DTx_def Let_def y2_def [symmetric] f
      by (simp add: inv(1,2) a)
  qed
  show "length (DTx n x y) = n + 2"
    by (simp add: res inv(3))
  assume i: "i < n + 2"
  have y2: "y2 ! 0 = - (x ! 0)" "y2 ! 1 = x ! 0 + x ! 0 - x ! 1"
    using n ly by (simp_all add: y2_def)
  consider "i = 0" | "i = 1" | "2 \<le> i" "i < n" | "i = n" | "i = n + 1"
    using i by linarith
  then show "DTx n x y ! i = adjoint_spec n x i"
  proof cases
    case 1
    then show ?thesis using n inv(3) inv(4) [of 0] y2 by (simp add: res adjoint_spec_def)
  next
    case 2
    then show ?thesis using n inv(3) inv(4) [of 1] y2 by (simp add: res adjoint_spec_def)
  next
    case 3
    then show ?thesis using n inv(3) inv(4) [of i] by (simp add: res adjoint_spec_def)
  next
    case 4
    have "n \<noteq> 0" "n \<noteq> 1" "n \<noteq> n + 1" "n < n + 2" using n by auto
    then show ?thesis using inv(3) by (simp add: 4 res adjoint_spec_def)
  next
    case 5
    have "n + 1 \<noteq> 0" "n + 1 \<noteq> 1" "\<not> n + 1 < n" "n + 1 \<noteq> n" "n + 1 < n + 2" using n by auto
    then show ?thesis using inv(3) by (simp add: 5 res adjoint_spec_def)
  qed
qed



lemma c_max_eq_max: "c_max a c = max a c"
  by (auto simp: c_max_def max_def)


lemma locate_violators_body_eq:
  "locate_violators_body z lambda diff_x i (n_vio, vi, vf, vs) =
     (if is_violator z diff_x i
      then (n_vio + 1, vi[n_vio := i], vf[n_vio := violator_fitness z lambda diff_x i],
            vs[n_vio := n_vio])
      else (n_vio, vi, vf, vs))"
  by (auto simp: locate_violators_body_def is_violator_def violator_fitness_def c_max_eq_max)

lemma violators_Suc:
  "violators z diff_x (Suc m) =
     (if is_violator z diff_x m then violators z diff_x m @ [m] else violators z diff_x m)"
  by (simp add: violators_def)

lemma length_violators_le: "length (violators z diff_x m) \<le> m"
  unfolding violators_def by (metis diff_zero length_filter_le length_upt)

lemma take_Suc_update:
  "k < length xs \<Longrightarrow> take (Suc k) (xs[k := v]) = take k xs @ [v]"
  by (simp add: take_Suc_conv_app_nth)

lemma drop_Suc_cong:
  "drop k xs = drop k ys \<Longrightarrow> drop (Suc k) xs = drop (Suc k) ys"
  by (metis drop_Suc tl_drop)

lemma locate_loop_step:
  assumes m: "m < N" and len: "N \<le> length vi0" "N \<le> length vf0" "N \<le> length vs0"
    and inv: "locate_loop_inv z lambda diff_x vi0 vf0 vs0 m t"
  shows "locate_loop_inv z lambda diff_x vi0 vf0 vs0 (Suc m) (locate_violators_body z lambda diff_x m t)"
proof -
  obtain nv vi vf vs where t: "t = (nv, vi, vf, vs)" by (metis prod_cases4)
  from inv [unfolded locate_loop_inv_def t prod.case]
  have i: "nv = length (violators z diff_x m)"
    "length vi = length vi0" "length vf = length vf0" "length vs = length vs0"
    "take nv vi = violators z diff_x m"
    "take nv vf = map (violator_fitness z lambda diff_x) (violators z diff_x m)"
    "take nv vs = [0..<nv]"
    "drop nv vi = drop nv vi0" "drop nv vf = drop nv vf0" "drop nv vs = drop nv vs0"
    by blast+
  have nv: "nv \<le> m" using i(1) length_violators_le by simp
  then have lt: "nv < length vi" "nv < length vf" "nv < length vs"
    using m len i(2-4) by simp_all
  show ?thesis
  proof (cases "is_violator z diff_x m")
    case True
    show ?thesis
      unfolding t locate_violators_body_eq locate_loop_inv_def
      using True i(1-7) lt drop_Suc_cong [OF i(8)] drop_Suc_cong [OF i(9)] drop_Suc_cong [OF i(10)]
      by (simp add: violators_Suc take_Suc_update)
  next
    case False
    show ?thesis
      unfolding t locate_violators_body_eq locate_loop_inv_def
      using False i by (simp add: violators_Suc)
  qed
qed

lemma locate_violators_loop:
  assumes len: "n - 2 \<le> length vi0" "n - 2 \<le> length vf0" "n - 2 \<le> length vs0"
  shows "locate_loop_inv z lambda diff_x vi0 vf0 vs0 (n - 2)
           (locate_violators n z lambda diff_x vi0 vf0 vs0)"
  unfolding locate_violators_def
proof (rule fold_upt_invariant)
  show "locate_loop_inv z lambda diff_x vi0 vf0 vs0 0 (0, vi0, vf0, vs0)"
    by (simp add: locate_loop_inv_def violators_def)
next
  fix i t assume "i < n - 2" "locate_loop_inv z lambda diff_x vi0 vf0 vs0 i t"
  then show "locate_loop_inv z lambda diff_x vi0 vf0 vs0 (Suc i) (locate_violators_body z lambda diff_x i t)"
    by (rule locate_loop_step [OF _ len])
qed simp

lemma sorted_wrt_violators: "sorted_wrt (<) (violators z diff_x m)"
  unfolding violators_def by (simp add: sorted_wrt_filter)

lemma reassign_violators_body_eq:
  "reassign_violators_body vi vs i z = z[selected vi vs i := reassign_value (z ! selected vi vs i)]"
  by (simp add: reassign_violators_body_def reassign_value_def selected_def)

lemma reassign_violators_frame:
  "length (reassign_violators m z vi vs) = length z \<and>
   (\<forall>j. j \<notin> selected vi vs ` {0..<m} \<longrightarrow> reassign_violators m z vi vs ! j = z ! j)"
  unfolding reassign_violators_def
proof (rule fold_upt_invariant [where P = "\<lambda>m z'. length z' = length z \<and>
   (\<forall>j. j \<notin> selected vi vs ` {0..<m} \<longrightarrow> z' ! j = z ! j)"])
  fix i t
  assume "length t = length z \<and> (\<forall>j. j \<notin> selected vi vs ` {0..<i} \<longrightarrow> t ! j = z ! j)"
  then show "length (reassign_violators_body vi vs i t) = length z \<and>
     (\<forall>j. j \<notin> selected vi vs ` {0..<Suc i} \<longrightarrow> reassign_violators_body vi vs i t ! j = z ! j)"
    by (auto simp: reassign_violators_body_eq atLeast0_lessThan_Suc)
qed simp_all

lemma reassign_violators_selected:
  assumes inj: "inj_on (selected vi vs) {0..<N}"
    and rng: "\<forall>i<N. selected vi vs i < length z"
    and m: "m \<le> N"
  shows "\<forall>i<m. reassign_violators m z vi vs ! selected vi vs i = reassign_value (z ! selected vi vs i)"
proof -
  have "m \<le> N \<longrightarrow> length (fold (reassign_violators_body vi vs) [0..<m] z) = length z \<and>
     (\<forall>j. j \<notin> selected vi vs ` {0..<m} \<longrightarrow> fold (reassign_violators_body vi vs) [0..<m] z ! j = z ! j) \<and>
     (\<forall>i<m. fold (reassign_violators_body vi vs) [0..<m] z ! selected vi vs i = reassign_value (z ! selected vi vs i))"
  proof (rule fold_upt_invariant [where P = "\<lambda>m z'. m \<le> N \<longrightarrow> length z' = length z \<and>
     (\<forall>j. j \<notin> selected vi vs ` {0..<m} \<longrightarrow> z' ! j = z ! j) \<and>
     (\<forall>i<m. z' ! selected vi vs i = reassign_value (z ! selected vi vs i))"])
    fix i t
    assume h: "i \<le> N \<longrightarrow> length t = length z \<and>
      (\<forall>j. j \<notin> selected vi vs ` {0..<i} \<longrightarrow> t ! j = z ! j) \<and>
      (\<forall>k<i. t ! selected vi vs k = reassign_value (z ! selected vi vs k))"
    show "Suc i \<le> N \<longrightarrow> length (reassign_violators_body vi vs i t) = length z \<and>
      (\<forall>j. j \<notin> selected vi vs ` {0..<Suc i} \<longrightarrow> reassign_violators_body vi vs i t ! j = z ! j) \<and>
      (\<forall>k<Suc i. reassign_violators_body vi vs i t ! selected vi vs k = reassign_value (z ! selected vi vs k))"
    proof
      assume s: "Suc i \<le> N"
      with h have h': "length t = length z"
        "\<And>j. j \<notin> selected vi vs ` {0..<i} \<Longrightarrow> t ! j = z ! j"
        "\<And>k. k < i \<Longrightarrow> t ! selected vi vs k = reassign_value (z ! selected vi vs k)"
        by auto
      have fresh: "selected vi vs i \<notin> selected vi vs ` {0..<i}"
      proof
        assume "selected vi vs i \<in> selected vi vs ` {0..<i}"
        then obtain k where "k < i" "selected vi vs k = selected vi vs i" by auto
        moreover have "k \<in> {0..<N}" "i \<in> {0..<N}" using \<open>k < i\<close> s by auto
        ultimately show False using inj_onD [OF inj] by blast
      qed
      have ne: "\<And>k. k < i \<Longrightarrow> selected vi vs k \<noteq> selected vi vs i"
      proof
        fix k assume "k < i" "selected vi vs k = selected vi vs i"
        then have "selected vi vs i \<in> selected vi vs ` {0..<i}"
          by (metis atLeastLessThan_iff imageI zero_le)
        with fresh show False by simp
      qed
      have lt: "selected vi vs i < length t" using rng s h'(1) by simp
      show "length (reassign_violators_body vi vs i t) = length z \<and>
      (\<forall>j. j \<notin> selected vi vs ` {0..<Suc i} \<longrightarrow> reassign_violators_body vi vs i t ! j = z ! j) \<and>
      (\<forall>k<Suc i. reassign_violators_body vi vs i t ! selected vi vs k = reassign_value (z ! selected vi vs k))"
        using h' fresh lt ne
        by (auto simp: reassign_violators_body_eq atLeast0_lessThan_Suc less_Suc_eq nth_list_update)
    qed
  qed simp_all
  with m show ?thesis by (simp add: reassign_violators_def)
qed

lemma div_spec_Suc:
  "div_spec z (Suc m) j =
     (if inactive z m
      then div_spec z m j +
        (if j = m then - (z ! m) else if j = m + 1 then 2 * z ! m
         else if j = m + 2 then - (z ! m) else 0)
      else div_spec z m j)"
proof -
  have a: "\<And>i. inactive_part z (Suc m) i =
      (if i = m \<and> inactive z m then z ! m else inactive_part z m i)"
    by (auto simp: inactive_part_def less_Suc_eq)
  have b: "inactive_part z m m = 0" "inactive_part z m (Suc m) = 0"
    "inactive_part z m (Suc (Suc m)) = 0"
    by (simp_all add: inactive_part_def)
  consider "j = m" | "j = m + 1" | "j = m + 2" | "j \<noteq> m" "j \<noteq> m + 1" "j \<noteq> m + 2" by blast
  then show ?thesis
  proof cases
    case 1
    then show ?thesis by (auto simp: div_spec_def a b)
  next
    case 2
    then show ?thesis by (auto simp: div_spec_def a b)
  next
    case 3
    then show ?thesis by (auto simp: div_spec_def a b)
  next
    case 4
    then have "j - 1 \<noteq> m \<or> j < 1" "j - 2 \<noteq> m \<or> j < 2" by auto
    with 4 show ?thesis by (auto simp: div_spec_def a)
  qed
qed

lemma div_spec_base: "div_spec z 0 j = 0"
  by (simp add: div_spec_def inactive_part_def)

lemma div_loop_step:
  assumes m: "m < N" and len: "N + 2 \<le> length dv0"
    and inv: "div_loop_inv N z dv0 m t"
  shows "div_loop_inv N z dv0 (Suc m) (update_dual_div_body z m t)"
proof -
  obtain k dv where t: "t = (k, dv)" by (metis prod.exhaust)
  from inv [unfolded div_loop_inv_def t prod.case]
  have i: "k = N - length (filter (inactive z) [0..<m])" "length dv = length dv0"
    "\<And>j. j < length dv0 \<Longrightarrow> dv ! j = (if j < m + 2 then div_spec z m j else dv0 ! j)"
    by blast+
  have lt: "m < length dv" "m + 1 < length dv" "m + 2 < length dv" using m len i(2) by simp_all
  have zero: "div_spec z m (m + 2) = 0"
    by (simp add: div_spec_def inactive_part_def)
  show ?thesis
  proof (cases "inactive z m")
    case True
    then have body: "update_dual_div_body z m t =
       (k - 1, dv[m := div_spec z m m - z ! m, m + 1 := div_spec z m (m + 1) + 2 * z ! m,
                  m + 2 := - (z ! m)])"
      unfolding t update_dual_div_body_def Let_def prod.case
      using lt i(2) i(3) [of m] i(3) [of "m + 1"]
      by (simp add: inactive_def list_update_swap [of "Suc (Suc m)"])
    have k: "k - 1 = N - length (filter (inactive z) [0..<Suc m])"
      using True i(1) by simp
    have "\<And>j. j < length dv0 \<Longrightarrow>
        dv[m := div_spec z m m - z ! m, m + 1 := div_spec z m (m + 1) + 2 * z ! m,
           m + 2 := - (z ! m)] ! j
        = (if j < Suc m + 2 then div_spec z (Suc m) j else dv0 ! j)"
      using True lt i(2) i(3) zero
      by (auto simp: div_spec_Suc nth_list_update less_Suc_eq)
    then show ?thesis
      unfolding body div_loop_inv_def prod.case using k i(2) by simp
  next
    case False
    then have body: "update_dual_div_body z m t = (k, dv[m + 2 := 0])"
      unfolding t update_dual_div_body_def Let_def prod.case
      by (simp add: inactive_def)
    have k: "k = N - length (filter (inactive z) [0..<Suc m])"
      using False i(1) by simp
    have "\<And>j. j < length dv0 \<Longrightarrow>
        dv[m + 2 := 0] ! j = (if j < Suc m + 2 then div_spec z (Suc m) j else dv0 ! j)"
      using False lt i(2) i(3) zero
      by (auto simp: div_spec_Suc nth_list_update less_Suc_eq)
    then show ?thesis
      unfolding body div_loop_inv_def prod.case using k i(2) by simp
  qed
qed

lemma update_dual_div_loop:
  assumes len: "n \<le> length dv0" and n: "2 \<le> n"
  shows "div_loop_inv (n - 2) z dv0 (n - 2) (update_dual_div n z dv0)"
proof -
  define d2 where "d2 = dv0[0 := 0, 1 := 0]"
  have l2: "n - 2 + 2 \<le> length d2" using len n by (simp add: d2_def)
  have "div_loop_inv (n - 2) z d2 (n - 2) (fold (update_dual_div_body z) [0..<n - 2] (n - 2, d2))"
  proof (rule fold_upt_invariant [where P = "div_loop_inv (n - 2) z d2"])
    show "div_loop_inv (n - 2) z d2 0 (n - 2, d2)"
      by (auto simp: div_loop_inv_def div_spec_base d2_def nth_list_update less_Suc_eq)
  next
    fix i t assume "i < n - 2" "div_loop_inv (n - 2) z d2 i t"
    then show "div_loop_inv (n - 2) z d2 (Suc i) (update_dual_div_body z i t)"
      using l2 by (simp add: div_loop_step)
  qed simp
  then have a: "div_loop_inv (n - 2) z d2 (n - 2) (update_dual_div n z dv0)"
    unfolding update_dual_div_def Let_def d2_def .
  obtain k dv where r: "update_dual_div n z dv0 = (k, dv)" by (metis prod.exhaust)
  from a [unfolded r div_loop_inv_def prod.case]
  have i: "k = n - 2 - length (filter (inactive z) [0..<n - 2])" "length dv = length d2"
    "\<And>j. j < length d2 \<Longrightarrow> dv ! j = (if j < n - 2 + 2 then div_spec z (n - 2) j else d2 ! j)"
    by blast+
  have ld: "length d2 = length dv0" by (simp add: d2_def)
  have "\<And>j. j < length dv0 \<Longrightarrow> dv ! j = (if j < n - 2 + 2 then div_spec z (n - 2) j else dv0 ! j)"
    using i(3) n by (auto simp: ld d2_def)
  then show ?thesis
    unfolding r div_loop_inv_def prod.case using i(1,2) ld by simp
qed

lemma active_list_Suc:
  "active_list z (Suc m) = (if inactive z m then active_list z m else active_list z m @ [m])"
  by (simp add: active_list_def)

lemma length_active_list_mono:
  assumes "m \<le> N" shows "length (active_list z m) \<le> length (active_list z N)"
proof -
  have "[0..<N] = [0..<m] @ [m..<N]" using assms by (metis le_add_diff_inverse upt_add_eq_append zero_le)
  then show ?thesis by (simp add: active_list_def)
qed

lemma band_append:
  "t < length acts \<Longrightarrow> super1 (acts @ [m]) t = super1 acts t"
  "t < length acts \<Longrightarrow> super2 (acts @ [m]) t = super2 acts t"
  "band_prev (acts @ [m]) (Suc (length acts)) = int m"
  "band_prev2 (acts @ [m]) (Suc (length acts)) = band_prev acts (length acts)"
  "super1 (acts @ [m]) (length acts) =
     (if int m - band_prev acts (length acts) = 1 then - 4
      else if int m - band_prev acts (length acts) = 2 then 1 else 0)"
  "super2 (acts @ [m]) (length acts) =
     (if int m - band_prev2 acts (length acts) = 2 then 1 else 0)"
  by (auto simp: super1_def super2_def band_prev_def band_prev2_def nth_append
      less_Suc_eq numeral_2_eq_2)

lemma fill_loop_step:
  assumes m: "m < N" and K: "length (active_list z N) \<le> K"
    and len: "3 * K \<le> length ab0" "K \<le> length b0"
    and inv: "fill_loop_inv K y z lambda dv ab0 b0 m t"
  shows "fill_loop_inv K y z lambda dv ab0 b0 (Suc m) (update_dual_fill_body K y z lambda dv m t)"
proof -
  obtain ik p1 p2 ab b where t: "t = (ik, p1, p2, ab, b)" by (metis prod_cases5)
  define acts where "acts = active_list z m"
  from inv [unfolded fill_loop_inv_def t prod.case, folded acts_def]
  have i: "ik = length acts" "p1 = band_prev acts ik" "p2 = band_prev2 acts ik"
    "length ab = length ab0" "length b = length b0"
    "\<And>t. t < ik \<Longrightarrow> ab ! (t + 2 * K) = 6" "\<And>t. t < ik \<Longrightarrow> ab ! (t + K) = super1 acts t"
    "\<And>t. t < ik \<Longrightarrow> ab ! t = super2 acts t"
    "\<And>t. t < ik \<Longrightarrow> b ! t = target y lambda dv (acts ! t)"
    by blast+
  show ?thesis
  proof (cases "inactive z m")
    case True
    then have body: "update_dual_fill_body K y z lambda dv m t = t"
      unfolding t update_dual_fill_body_def by (auto simp: inactive_def)
    show ?thesis
      unfolding body using inv True by (simp add: fill_loop_inv_def active_list_Suc)
  next
    case False
    define s1 :: real where "s1 = (if int m - p1 = 1 then - 4 else if int m - p1 = 2 then 1 else 0)"
    define s2 :: real where "s2 = (if int m - p2 = 2 then 1 else 0)"
    have body: "update_dual_fill_body K y z lambda dv m t =
        (ik + 1, int m, p1, ab[ik + 2 * K := 6, ik + K := s1, ik := s2],
         b[ik := target y lambda dv m])"
      unfolding t update_dual_fill_body_def Let_def prod.case s1_def s2_def target_def
      using False by (simp add: inactive_def)
    have acts': "active_list z (Suc m) = acts @ [m]"
      using False by (simp add: active_list_Suc acts_def)
    have "length (active_list z (Suc m)) \<le> K"
      using length_active_list_mono [of "Suc m" N z] m K by simp
    then have ikK: "ik < K" by (simp add: acts' i(1))
    then have rng: "ik + 2 * K < length ab" "ik + K < length ab" "ik < length ab" "ik < length b"
      using len i(4,5) by simp_all
    have new: "ab[ik + 2 * K := 6, ik + K := s1, ik := s2] ! (ik + 2 * K) = 6"
      "ab[ik + 2 * K := 6, ik + K := s1, ik := s2] ! (ik + K) = s1"
      "ab[ik + 2 * K := 6, ik + K := s1, ik := s2] ! ik = s2"
      "b[ik := target y lambda dv m] ! ik = target y lambda dv m"
      using rng ikK by (simp_all add: nth_list_update)
    have old: "\<And>t. t < ik \<Longrightarrow> ab[ik + 2 * K := 6, ik + K := s1, ik := s2] ! (t + 2 * K) = 6"
      "\<And>t. t < ik \<Longrightarrow> ab[ik + 2 * K := 6, ik + K := s1, ik := s2] ! (t + K) = super1 acts t"
      "\<And>t. t < ik \<Longrightarrow> ab[ik + 2 * K := 6, ik + K := s1, ik := s2] ! t = super2 acts t"
      "\<And>t. t < ik \<Longrightarrow> b[ik := target y lambda dv m] ! t = target y lambda dv (acts ! t)"
      using ikK i(6-9) by (simp_all add: nth_list_update)
    have s: "s1 = super1 (acts @ [m]) ik" "s2 = super2 (acts @ [m]) ik"
      by (simp_all add: s1_def s2_def i(1,2,3) band_append)
    have all: "\<And>t. t < Suc ik \<Longrightarrow>
        ab[ik + 2 * K := 6, ik + K := s1, ik := s2] ! (t + 2 * K) = 6 \<and>
        ab[ik + 2 * K := 6, ik + K := s1, ik := s2] ! (t + K) = super1 (acts @ [m]) t \<and>
        ab[ik + 2 * K := 6, ik + K := s1, ik := s2] ! t = super2 (acts @ [m]) t \<and>
        b[ik := target y lambda dv m] ! t = target y lambda dv ((acts @ [m]) ! t)"
    proof -
      fix t assume "t < Suc ik"
      then consider "t < ik" | "t = ik" by linarith
      then show "ab[ik + 2 * K := 6, ik + K := s1, ik := s2] ! (t + 2 * K) = 6 \<and>
        ab[ik + 2 * K := 6, ik + K := s1, ik := s2] ! (t + K) = super1 (acts @ [m]) t \<and>
        ab[ik + 2 * K := 6, ik + K := s1, ik := s2] ! t = super2 (acts @ [m]) t \<and>
        b[ik := target y lambda dv m] ! t = target y lambda dv ((acts @ [m]) ! t)"
      proof cases
        case 1
        then show ?thesis using old [OF 1] by (simp add: band_append i(1) nth_append)
      next
        case 2
        then show ?thesis using new s by (simp add: i(1))
      qed
    qed
    show ?thesis
      unfolding body fill_loop_inv_def prod.case acts'
      using all i(4,5) by (simp add: i(1,2) band_append)
  qed
qed

lemma update_dual_fill_loop:
  assumes K: "length (active_list z (n - 2)) \<le> K"
    and len: "3 * K \<le> length ab0" "K \<le> length b0"
  shows "fill_loop_inv K y z lambda dv ab0 b0 (n - 2)
           (fold (update_dual_fill_body K y z lambda dv) [0..<n - 2] (0, - 3, - 3, ab0, b0))"
proof (rule fold_upt_invariant [where P = "fill_loop_inv K y z lambda dv ab0 b0"])
  show "fill_loop_inv K y z lambda dv ab0 b0 0 (0, - 3, - 3, ab0, b0)"
    by (simp add: fill_loop_inv_def active_list_def band_prev_def band_prev2_def)
next
  fix i t assume "i < n - 2" "fill_loop_inv K y z lambda dv ab0 b0 i t"
  then show "fill_loop_inv K y z lambda dv ab0 b0 (Suc i) (update_dual_fill_body K y z lambda dv i t)"
    by (rule fill_loop_step [OF _ K len])
qed simp

lemma update_dual_copy_length: "length (update_dual_copy n b z) = length z"
proof -
  have "length (snd (fold (update_dual_copy_body b) [0..<n - 2] (0, z))) = length z"
    by (rule fold_upt_invariant [where P = "\<lambda>m t. length (snd t) = length z"])
       (auto simp: update_dual_copy_body_def split: prod.splits)
  then show ?thesis by (simp add: update_dual_copy_def)
qed

lemma count_active:
  "length (active_list z m) = m - length (filter (inactive z) [0..<m])"
proof -
  have "length (filter (inactive z) [0..<m]) + length (active_list z m) = length [0..<m]"
    unfolding active_list_def by (rule sum_length_filter_compl)
  then show ?thesis by simp
qed

lemma rescan_max_spec:
  "case rescan_max m q i0 of (mx, mi) \<Rightarrow>
     (\<forall>j<m. q ! j \<le> mx) \<and> (mx = 0 \<and> mi = i0 \<or> mi < m \<and> q ! mi = mx)"
  unfolding rescan_max_def
  by (rule fold_upt_invariant [where P = "\<lambda>k t. case t of (mx, mi) \<Rightarrow>
     (\<forall>j<k. q ! j \<le> mx) \<and> (mx = 0 \<and> mi = i0 \<or> mi < k \<and> q ! mi = mx)"])
    (auto simp: less_Suc_eq split: if_splits prod.splits)

lemma rescan_min_spec:
  "case rescan_min n m q i0 of (mn, mi) \<Rightarrow>
     (\<forall>j<m. mn \<le> q ! j) \<and> (mn = n \<and> mi = i0 \<or> mi < m \<and> q ! mi = mn)"
  unfolding rescan_min_def
  by (rule fold_upt_invariant [where P = "\<lambda>k t. case t of (mn, mi) \<Rightarrow>
     (\<forall>j<k. mn \<le> q ! j) \<and> (mn = n \<and> mi = i0 \<or> mi < k \<and> q ! mi = mn)"])
    (auto simp: less_Suc_eq split: if_splits prod.splits)

lemma update_queue_new_min:
  assumes inv: "queue_inv n m s" and m: "0 < m" and nv: "st_n_vio s \<noteq> 0"
    and br: "st_n_vio s < st_min_queue s"
  shows "\<exists>mx mi. update_queue n m ds de s =
      Inr (s\<lparr>st_p := c_min (de * st_p s) 1,
             st_vio_queue := (st_vio_queue s)[st_queue_index s := st_n_vio s],
             st_min_queue := st_n_vio s, st_min_queue_index := st_queue_index s,
             st_max_queue := mx, st_max_queue_index := mi,
             st_queue_index := (st_queue_index s + 1) mod m\<rparr>) \<and>
      mi < m \<and> (st_vio_queue s)[st_queue_index s := st_n_vio s] ! mi = mx \<and>
      (\<forall>j<m. (st_vio_queue s)[st_queue_index s := st_n_vio s] ! j \<le> mx)"
proof -
  let ?q = "(st_vio_queue s)[st_queue_index s := st_n_vio s]"
  from inv have i: "length (st_vio_queue s) = m" "st_queue_index s < m"
    "st_min_queue_index s < m" "st_max_queue_index s < m"
    "st_vio_queue s ! st_min_queue_index s = st_min_queue s"
    "st_vio_queue s ! st_max_queue_index s = st_max_queue s"
    "\<And>j. j < m \<Longrightarrow> st_min_queue s \<le> st_vio_queue s ! j"
    "\<And>j. j < m \<Longrightarrow> st_vio_queue s ! j \<le> st_max_queue s"
    "\<And>j. j < m \<Longrightarrow> 1 \<le> st_vio_queue s ! j"
    by (simp_all add: queue_inv_def)
  have q'j: "\<And>j. j < m \<Longrightarrow> ?q ! j = (if j = st_queue_index s then st_n_vio s else st_vio_queue s ! j)"
    using i(1) by (simp add: nth_list_update)
  show ?thesis
  proof (cases "st_queue_index s = st_max_queue_index s")
    case True
    obtain mx mi where r: "rescan_max m ?q (st_max_queue_index s) = (mx, mi)"
      by (metis prod.exhaust)
    from rescan_max_spec [where m = m and q = ?q and ?i0.0 = "st_max_queue_index s",
        unfolded r prod.case]
    have a: "\<And>j. j < m \<Longrightarrow> ?q ! j \<le> mx"
      and b: "mx = 0 \<and> mi = st_max_queue_index s \<or> mi < m \<and> ?q ! mi = mx" by blast+
    have "1 \<le> ?q ! st_queue_index s" using nv i(2) q'j by simp
    with a [OF i(2)] have "mx \<noteq> 0" by linarith
    with b have c: "mi < m" "?q ! mi = mx" by blast+
    have "update_queue n m ds de s =
      Inr (s\<lparr>st_p := c_min (de * st_p s) 1, st_vio_queue := ?q,
             st_min_queue := st_n_vio s, st_min_queue_index := st_queue_index s,
             st_max_queue := mx, st_max_queue_index := mi,
             st_queue_index := (st_queue_index s + 1) mod m\<rparr>)"
      using br True m r
      by (simp add: update_queue_def Let_def advance_queue_index_def)
    then show ?thesis using a c by blast
  next
    case False
    have "update_queue n m ds de s =
      Inr (s\<lparr>st_p := c_min (de * st_p s) 1, st_vio_queue := ?q,
             st_min_queue := st_n_vio s, st_min_queue_index := st_queue_index s,
             st_max_queue := st_max_queue s, st_max_queue_index := st_max_queue_index s,
             st_queue_index := (st_queue_index s + 1) mod m\<rparr>)"
      using br False m
      by (simp add: update_queue_def Let_def advance_queue_index_def)
    moreover have "?q ! st_max_queue_index s = st_max_queue s"
      using False i(4,6) q'j by simp
    moreover have "\<forall>j<m. ?q ! j \<le> st_max_queue s"
      using q'j i(8) i(7) [OF i(3)] i(8) [OF i(3)] br by auto
    ultimately show ?thesis using i(4) by blast
  qed
qed

lemma update_queue_intermediate:
  assumes inv: "queue_inv n m s" and m: "0 < m"
    and br: "\<not> st_n_vio s < st_min_queue s" "\<not> st_max_queue s \<le> st_n_vio s"
  shows "\<exists>mn ni mx mi. update_queue n m ds de s =
      Inr (s\<lparr>st_vio_queue := (st_vio_queue s)[st_queue_index s := st_n_vio s],
             st_min_queue := mn, st_min_queue_index := ni,
             st_max_queue := mx, st_max_queue_index := mi,
             st_queue_index := (st_queue_index s + 1) mod m\<rparr>) \<and>
      mi < m \<and> (st_vio_queue s)[st_queue_index s := st_n_vio s] ! mi = mx \<and>
      ni < m \<and> (st_vio_queue s)[st_queue_index s := st_n_vio s] ! ni = mn \<and>
      (\<forall>j<m. mn \<le> (st_vio_queue s)[st_queue_index s := st_n_vio s] ! j \<and>
             (st_vio_queue s)[st_queue_index s := st_n_vio s] ! j \<le> mx)"
proof -
  let ?q = "(st_vio_queue s)[st_queue_index s := st_n_vio s]"
  from inv have i: "length (st_vio_queue s) = m" "st_queue_index s < m"
    "st_min_queue_index s < m" "st_max_queue_index s < m"
    "st_vio_queue s ! st_min_queue_index s = st_min_queue s"
    "st_vio_queue s ! st_max_queue_index s = st_max_queue s"
    "\<And>j. j < m \<Longrightarrow> st_min_queue s \<le> st_vio_queue s ! j"
    "\<And>j. j < m \<Longrightarrow> st_vio_queue s ! j \<le> st_max_queue s"
    "\<And>j. j < m \<Longrightarrow> 1 \<le> st_vio_queue s ! j"
    "\<And>j. j < m \<Longrightarrow> st_vio_queue s ! j \<le> n"
    by (simp_all add: queue_inv_def)
  have q'j: "\<And>j. j < m \<Longrightarrow> ?q ! j = (if j = st_queue_index s then st_n_vio s else st_vio_queue s ! j)"
    using i(1) by (simp add: nth_list_update)
  have lo: "\<forall>j<m. st_min_queue s \<le> ?q ! j" using q'j i(7) br by auto
  have hi: "\<forall>j<m. ?q ! j \<le> st_max_queue s" using q'j i(8) br by auto
  have ne: "st_min_queue_index s \<noteq> st_max_queue_index s" using i(5,6) br by auto
  show ?thesis
  proof (cases "st_queue_index s = st_max_queue_index s")
    case True
    obtain mx mi where r: "rescan_max m ?q (st_max_queue_index s) = (mx, mi)"
      by (metis prod.exhaust)
    from rescan_max_spec [where m = m and q = ?q and ?i0.0 = "st_max_queue_index s",
        unfolded r prod.case]
    have a: "\<And>j. j < m \<Longrightarrow> ?q ! j \<le> mx"
      and b: "mx = 0 \<and> mi = st_max_queue_index s \<or> mi < m \<and> ?q ! mi = mx" by blast+
    have "1 \<le> ?q ! st_min_queue_index s" using True ne i(3) i(9) q'j by simp
    with a [OF i(3)] have "mx \<noteq> 0" by linarith
    with b have c: "mi < m" "?q ! mi = mx" by blast+
    have "update_queue n m ds de s =
      Inr (s\<lparr>st_vio_queue := ?q,
             st_min_queue := st_min_queue s, st_min_queue_index := st_min_queue_index s,
             st_max_queue := mx, st_max_queue_index := mi,
             st_queue_index := (st_queue_index s + 1) mod m\<rparr>)"
      using br True m r
      by (simp add: update_queue_def Let_def advance_queue_index_def)
    moreover have "?q ! st_min_queue_index s = st_min_queue s"
      using True ne i(3,5) q'j by simp
    ultimately show ?thesis using a c lo i(3) by blast
  next
    case False
    note nmax = False
    have mxq: "?q ! st_max_queue_index s = st_max_queue s"
      using False i(4,6) q'j by simp
    show ?thesis
    proof (cases "st_queue_index s = st_min_queue_index s")
      case True
      obtain mn ni where r: "rescan_min n m ?q (st_min_queue_index s) = (mn, ni)"
        by (metis prod.exhaust)
      from rescan_min_spec [where n = n and m = m and q = ?q and ?i0.0 = "st_min_queue_index s",
          unfolded r prod.case]
      have a: "\<And>j. j < m \<Longrightarrow> mn \<le> ?q ! j"
        and b: "mn = n \<and> ni = st_min_queue_index s \<or> ni < m \<and> ?q ! ni = mn" by blast+
      have "?q ! st_queue_index s < n"
        using q'j [OF i(2)] br(2) i(10) [OF i(4)] i(6) by simp
      with a [OF i(2)] have "mn \<noteq> n" by linarith
      with b have c: "ni < m" "?q ! ni = mn" by blast+
      have "update_queue n m ds de s =
        Inr (s\<lparr>st_vio_queue := ?q,
               st_min_queue := mn, st_min_queue_index := ni,
               st_max_queue := st_max_queue s, st_max_queue_index := st_max_queue_index s,
               st_queue_index := (st_queue_index s + 1) mod m\<rparr>)"
        using br True nmax m r
        by (simp add: update_queue_def Let_def advance_queue_index_def)
      then show ?thesis using a c hi mxq i(4) by blast
    next
      case False
      have "update_queue n m ds de s =
        Inr (s\<lparr>st_vio_queue := ?q,
               st_min_queue := st_min_queue s, st_min_queue_index := st_min_queue_index s,
               st_max_queue := st_max_queue s, st_max_queue_index := st_max_queue_index s,
               st_queue_index := (st_queue_index s + 1) mod m\<rparr>)"
        using br False nmax m
        by (simp add: update_queue_def Let_def advance_queue_index_def)
      moreover have "?q ! st_min_queue_index s = st_min_queue s"
        using False i(3,5) q'j by simp
      ultimately show ?thesis using lo hi mxq i(3,4) by blast
    qed
  qed
qed

lemma update_queue_stagnation:
  assumes "\<not> st_n_vio s < st_min_queue s" "st_max_queue s \<le> st_n_vio s" "st_n_vio s \<noteq> 0"
  shows "update_queue n m ds de s =
     Inr (s\<lparr>st_p := c_max (ds * st_p s) (real (1 div st_n_vio s))\<rparr>)"
  using assms by (simp add: update_queue_def)

lemma queue_inv_max_pos:
  assumes "queue_inv n m s" "0 < m" shows "1 \<le> st_min_queue s" "1 \<le> st_max_queue s"
proof -
  from assms(1) [unfolded queue_inv_def]
  have a: "st_min_queue_index s < m" "st_max_queue_index s < m"
    "st_vio_queue s ! st_min_queue_index s = st_min_queue s"
    "st_vio_queue s ! st_max_queue_index s = st_max_queue s"
    "\<And>j. j < m \<Longrightarrow> 1 \<le> st_vio_queue s ! j" by blast+
  show "1 \<le> st_min_queue s" using a(5) [OF a(1)] a(3) by simp
  show "1 \<le> st_max_queue s" using a(5) [OF a(2)] a(4) by simp
qed

lemma update_queue_total:
  assumes inv: "queue_inv n m s" and m: "0 < m"
  shows "\<exists>s'. update_queue n m ds de s = Inr s'"
proof (cases "st_n_vio s < st_min_queue s")
  case True
  then show ?thesis using m
    by (simp add: update_queue_def Let_def advance_queue_index_def split: prod.splits)
next
  case False
  note nmin = False
  show ?thesis
  proof (cases "st_max_queue s \<le> st_n_vio s")
    case True
    then have "st_n_vio s \<noteq> 0" using queue_inv_max_pos(2) [OF inv m] by simp
    then show ?thesis using update_queue_stagnation [OF nmin True] by simp
  next
    case False
    then show ?thesis using update_queue_intermediate [OF inv m nmin False] by blast
  qed
qed

lemma update_queue_frame:
  assumes "update_queue n m ds de s = Inr s'"
  shows "st_x s' = st_x s \<and> st_z s' = st_z s \<and> st_diff_x s' = st_diff_x s \<and>
    st_div_zi s' = st_div_zi s \<and> st_vio_fitness s' = st_vio_fitness s \<and>
    st_vio_index s' = st_vio_index s \<and> st_vio_sort s' = st_vio_sort s \<and>
    st_ab s' = st_ab s \<and> st_b s' = st_b s \<and> st_n_vio s' = st_n_vio s \<and>
    st_n_active s' = st_n_active s \<and> st_stderr s' = st_stderr s"
  using assms
  by (auto simp: update_queue_def Let_def advance_queue_index_def split: if_splits prod.splits)

lemma update_queue_preserves:
  assumes inv: "queue_inv n m s" and m: "0 < m" and nv: "st_n_vio s \<noteq> 0"
  shows "\<exists>s'. update_queue n m ds de s = Inr s' \<and> queue_inv n m s' \<and>
     (if pushes s
      then st_vio_queue s' = (st_vio_queue s)[st_queue_index s := st_n_vio s] \<and>
           st_queue_index s' = (st_queue_index s + 1) mod m
      else st_vio_queue s' = st_vio_queue s \<and> st_queue_index s' = st_queue_index s)"
proof -
  let ?q = "(st_vio_queue s)[st_queue_index s := st_n_vio s]"
  from inv have i: "length (st_vio_queue s) = m" "st_queue_index s < m"
    "\<And>j. j < m \<Longrightarrow> 1 \<le> st_vio_queue s ! j"
    "\<And>j. j < m \<Longrightarrow> st_vio_queue s ! j \<le> n"
    "st_max_queue_index s < m" "st_vio_queue s ! st_max_queue_index s = st_max_queue s"
    "st_min_queue_index s < m" "st_vio_queue s ! st_min_queue_index s = st_min_queue s"
    by (simp_all add: queue_inv_def)
  have q'j: "\<And>j. j < m \<Longrightarrow> ?q ! j = (if j = st_queue_index s then st_n_vio s else st_vio_queue s ! j)"
    using i(1) by (simp add: nth_list_update)
  have qi: "(st_queue_index s + 1) mod m < m" using m by simp
  show ?thesis
  proof (cases "st_n_vio s < st_min_queue s")
    case True
    have "st_n_vio s \<le> n" using True i(4) [OF i(7)] i(8) by simp
    then have rng: "\<forall>j<m. 1 \<le> ?q ! j \<and> ?q ! j \<le> n" using q'j i(3,4) nv by auto
    from update_queue_new_min [OF inv m nv True, where ds = ds and de = de]
    obtain mx mi where r: "update_queue n m ds de s =
      Inr (s\<lparr>st_p := c_min (de * st_p s) 1, st_vio_queue := ?q,
             st_min_queue := st_n_vio s, st_min_queue_index := st_queue_index s,
             st_max_queue := mx, st_max_queue_index := mi,
             st_queue_index := (st_queue_index s + 1) mod m\<rparr>)"
      and f: "mi < m" "?q ! mi = mx" "\<forall>j<m. ?q ! j \<le> mx" by blast
    have lo: "\<forall>j<m. st_n_vio s \<le> ?q ! j"
      using q'j True inv by (auto simp: queue_inv_def intro: less_imp_le less_le_trans)
    show ?thesis
      unfolding r using True f rng lo i(1,2) qi q'j [OF i(2)]
      by (simp add: queue_inv_def pushes_def)
  next
    case False
    note nmin = False
    show ?thesis
    proof (cases "st_max_queue s \<le> st_n_vio s")
      case True
      show ?thesis
        unfolding update_queue_stagnation [OF nmin True nv]
        using inv nmin True by (simp add: queue_inv_def pushes_def)
    next
      case False
      have "st_n_vio s \<le> n" using False i(4) [OF i(5)] i(6) by simp
      then have rng: "\<forall>j<m. 1 \<le> ?q ! j \<and> ?q ! j \<le> n" using q'j i(3,4) nv by auto
      from update_queue_intermediate [OF inv m nmin False, where ds = ds and de = de]
      obtain mn ni mx mi where r: "update_queue n m ds de s =
        Inr (s\<lparr>st_vio_queue := ?q, st_min_queue := mn, st_min_queue_index := ni,
               st_max_queue := mx, st_max_queue_index := mi,
               st_queue_index := (st_queue_index s + 1) mod m\<rparr>)"
        and f: "mi < m" "?q ! mi = mx" "ni < m" "?q ! ni = mn"
          "\<forall>j<m. mn \<le> ?q ! j \<and> ?q ! j \<le> mx" by blast
      show ?thesis
        unfolding r using False f rng i(1,2) qi
        by (simp add: queue_inv_def pushes_def)
    qed
  qed
qed

lemma rotate_push:
  assumes "qi < length q"
  shows "rotate ((qi + 1) mod length q) (q[qi := v]) = tl (rotate qi q) @ [v]"
proof -
  have a: "rotate qi q = drop qi q @ take qi q"
    using assms by (simp add: rotate_drop_take)
  have b: "tl (drop qi q @ take qi q) = drop (Suc qi) q @ take qi q"
    using assms by (simp add: drop_Suc tl_drop)
  show ?thesis
  proof (cases "Suc qi = length q")
    case True
    then have "rotate ((qi + 1) mod length q) (q[qi := v]) = q[qi := v]" by simp
    also have "\<dots> = take qi q @ [v]"
      using True by (metis append_Nil2 assms drop_all le_refl upd_conv_take_nth_drop)
    finally show ?thesis using True by (simp add: a b)
  next
    case False
    then have lt: "Suc qi < length q" using assms by simp
    then have "rotate ((qi + 1) mod length q) (q[qi := v]) =
        drop (Suc qi) (q[qi := v]) @ take (Suc qi) (q[qi := v])"
      by (simp add: rotate_drop_take)
    also have "\<dots> = drop (Suc qi) q @ take qi q @ [v]"
      using assms by (simp add: take_Suc_update)
    finally show ?thesis by (simp add: a b)
  qed
qed

lemma queue_inv_cong: "queue_part s' = queue_part s \<Longrightarrow> queue_inv n m s' = queue_inv n m s"
  by (simp add: queue_part_def queue_inv_def)

lemma pushes_cong:
  "queue_part s' = queue_part s \<Longrightarrow> st_n_vio s' = st_n_vio s \<Longrightarrow> pushes s' = pushes s"
  by (simp add: queue_part_def pushes_def)

lemma subspace_minimization_frame:
  "queue_part (subspace_minimization dpbsv n y lambda s) = queue_part s"
  "st_p (subspace_minimization dpbsv n y lambda s) = st_p s"
  "st_vio_index (subspace_minimization dpbsv n y lambda s) = st_vio_index s"
  "st_vio_fitness (subspace_minimization dpbsv n y lambda s) = st_vio_fitness s"
  "st_vio_sort (subspace_minimization dpbsv n y lambda s) = st_vio_sort s"
  by (simp_all add: subspace_minimization_def Let_def queue_part_def)

lemma subspace_minimization_z:
  "st_z (subspace_minimization dpbsv n y lambda s) =
     ud_z (update_dual dpbsv n y (st_z s) lambda (st_div_zi s) (st_ab s) (st_b s))"
  by (simp add: subspace_minimization_def Let_def)

lemma subspace_minimization_x:
  "st_x (subspace_minimization dpbsv n y lambda s) =
     update_primal n (st_x s) y (st_z (subspace_minimization dpbsv n y lambda s)) lambda"
  by (simp add: subspace_minimization_def Let_def)

lemma subspace_minimization_n_active:
  "st_n_active (subspace_minimization dpbsv n y lambda s) =
     ud_k (update_dual dpbsv n y (st_z s) lambda (st_div_zi s) (st_ab s) (st_b s))"
  by (simp add: subspace_minimization_def Let_def)

lemma update_dual_length_z:
  "length (ud_z (update_dual dpbsv n y z lambda dv ab b)) = length z"
  by (simp add: update_dual_def Let_def update_dual_copy_length split: prod.splits)

lemma count_violators_frame:
  "queue_part (count_violators n lambda s) = queue_part s"
  "st_p (count_violators n lambda s) = st_p s"
  "st_x (count_violators n lambda s) = st_x s"
  "st_z (count_violators n lambda s) = st_z s"
  "st_diff_x (count_violators n lambda s) = st_diff_x s"
  "st_n_active (count_violators n lambda s) = st_n_active s"
  "st_stderr (count_violators n lambda s) = st_stderr s"
  by (simp_all add: count_violators_def Let_def queue_part_def split: prod.splits)

lemma update_partition_frame:
  "queue_part (update_partition qsort s) = queue_part s"
  "st_p (update_partition qsort s) = st_p s"
  "st_x (update_partition qsort s) = st_x s"
  "st_vio_index (update_partition qsort s) = st_vio_index s"
  "st_vio_fitness (update_partition qsort s) = st_vio_fitness s"
  "st_diff_x (update_partition qsort s) = st_diff_x s"
  by (simp_all add: update_partition_def call_reassign_violators_def Let_def queue_part_def)

lemma print_frame:
  "queue_part (print_status verbose iter s) = queue_part s"
  "st_p (print_status verbose iter s) = st_p s"
  "st_x (print_status verbose iter s) = st_x s"
  "st_z (print_status verbose iter s) = st_z s"
  "st_n_vio (print_status verbose iter s) = st_n_vio s"
  "st_n_active (print_status verbose iter s) = st_n_active s"
  "st_vio_index (print_status verbose iter s) = st_vio_index s"
  "st_vio_fitness (print_status verbose iter s) = st_vio_fitness s"
  "st_vio_sort (print_status verbose iter s) = st_vio_sort s"
  "st_diff_x (print_status verbose iter s) = st_diff_x s"
  "queue_part (print_line verbose msgs s) = queue_part s"
  "st_p (print_line verbose msgs s) = st_p s"
  "st_x (print_line verbose msgs s) = st_x s"
  "st_z (print_line verbose msgs s) = st_z s"
  "st_vio_index (print_line verbose msgs s) = st_vio_index s"
  "st_vio_fitness (print_line verbose msgs s) = st_vio_fitness s"
  "st_vio_sort (print_line verbose msgs s) = st_vio_sort s"
  by (simp_all add: print_status_def print_line_def queue_part_def)

lemma fill_queue:
  assumes "length q = m" "0 < m"
  shows "fold (\<lambda>i q. q[i := n]) [1..<m] (q[0 := n]) = replicate m n"
proof -
  have "length (fold (\<lambda>i q. q[i := n]) [1..<m] (q[0 := n])) = m \<and>
      (\<forall>j<m. fold (\<lambda>i q. q[i := n]) [1..<m] (q[0 := n]) ! j = n)"
    by (rule fold_upt_invariant [where P = "\<lambda>k t. length t = m \<and> (\<forall>j<k. t ! j = n)"])
       (use assms in \<open>auto simp: nth_list_update less_Suc_eq\<close>)
  then show ?thesis by (simp add: list_eq_iff_nth_eq)
qed

lemma initial_state_queue:
  assumes "length (st_vio_queue s) = m" "0 < m"
  shows "queue_part (initial_state n x z p m verbose s) = (replicate m n, 0, n, 0, n, m - 1)"
  using fill_queue [OF assms, of n]
  by (simp add: initial_state_def prepare_queue_def Let_def queue_part_def print_line_def)


lemma initial_state_queue_inv:
  assumes "length (st_vio_queue s) = m" "0 < m" "0 < n"
  shows "queue_inv n m (initial_state n x z p m verbose s)"
  using initial_state_queue [OF assms(1,2), of n x z p verbose] assms(2,3)
  by (simp add: queue_part_def queue_inv_def)

lemma located_frame:
  "queue_part (located dpbsv n y lambda s) = queue_part s"
  "st_p (located dpbsv n y lambda s) = st_p s"
  by (simp_all add: located_def count_violators_frame subspace_minimization_frame)

lemma iteration_head_eq:
  "iteration_head dpbsv n y lambda m ds de verbose iter s =
     (case update_queue n m ds de (located dpbsv n y lambda s) of
        Inl e \<Rightarrow> Inl e | Inr u \<Rightarrow> Inr (print_status verbose iter u))"
  by (simp add: iteration_head_def located_def)

lemma iteration_head_total:
  assumes "queue_inv n m s" "0 < m"
  shows "\<exists>u. update_queue n m ds de (located dpbsv n y lambda s) = Inr u \<and>
     iteration_head dpbsv n y lambda m ds de verbose iter s = Inr (print_status verbose iter u)"
proof -
  have "queue_inv n m (located dpbsv n y lambda s)"
    using assms(1) queue_inv_cong [OF located_frame(1)] by blast
  from update_queue_total [OF this assms(2)]
  obtain u where "update_queue n m ds de (located dpbsv n y lambda s) = Inr u" by blast
  then show ?thesis by (simp add: iteration_head_eq)
qed

lemma iteration_head_queue:
  assumes inv: "queue_inv n m s" and m: "0 < m"
    and h: "iteration_head dpbsv n y lambda m ds de verbose iter s = Inr s'"
    and nv: "st_n_vio s' \<noteq> 0"
  shows "queue_inv n m s'"
    and "st_n_vio s' = st_n_vio (located dpbsv n y lambda s)"
    and "if pushes (located dpbsv n y lambda s)
         then st_vio_queue s' = (st_vio_queue s)[st_queue_index s := st_n_vio s'] \<and>
              st_queue_index s' = (st_queue_index s + 1) mod m
         else st_vio_queue s' = st_vio_queue s \<and> st_queue_index s' = st_queue_index s"
proof -
  let ?l = "located dpbsv n y lambda s"
  have li: "queue_inv n m ?l"
    using inv queue_inv_cong [OF located_frame(1)] by blast
  from iteration_head_total [OF inv m, of ds de dpbsv y lambda verbose iter] h
  obtain u where u: "update_queue n m ds de ?l = Inr u" "s' = print_status verbose iter u"
    by auto
  have nvu: "st_n_vio u = st_n_vio ?l" using update_queue_frame [OF u(1)] by simp
  then show nveq: "st_n_vio s' = st_n_vio ?l" by (simp add: u(2) print_frame)
  then have "st_n_vio ?l \<noteq> 0" using nv by simp
  from update_queue_preserves [OF li m this, of ds de] u(1)
  have p: "queue_inv n m u"
    "if pushes ?l
     then st_vio_queue u = (st_vio_queue ?l)[st_queue_index ?l := st_n_vio ?l] \<and>
          st_queue_index u = (st_queue_index ?l + 1) mod m
     else st_vio_queue u = st_vio_queue ?l \<and> st_queue_index u = st_queue_index ?l"
    by auto
  show "queue_inv n m s'"
    using p(1) queue_inv_cong [OF print_frame(1), of n m verbose iter u] by (simp add: u(2))
  have q: "st_vio_queue ?l = st_vio_queue s" "st_queue_index ?l = st_queue_index s"
    using located_frame(1) [of dpbsv n y lambda s] by (simp_all add: queue_part_def)
  have q': "st_vio_queue s' = st_vio_queue u" "st_queue_index s' = st_queue_index u"
    using print_frame(1) [of verbose iter u] by (simp_all add: queue_part_def u(2))
  show "if pushes ?l
         then st_vio_queue s' = (st_vio_queue s)[st_queue_index s := st_n_vio s'] \<and>
              st_queue_index s' = (st_queue_index s + 1) mod m
         else st_vio_queue s' = st_vio_queue s \<and> st_queue_index s' = st_queue_index s"
    using p(2) by (simp add: q q' nveq)
qed

lemma state_before_Suc:
  assumes "state_before dpbsv qsort n y lambda m ds de verbose s0 (Suc k) = Some t'"
  obtains t s' where "state_before dpbsv qsort n y lambda m ds de verbose s0 k = Some t"
    and "iteration_head dpbsv n y lambda m ds de verbose (Suc k) t = Inr s'"
    and "st_n_vio s' \<noteq> 0" and "t' = update_partition qsort s'"
  using assms
  by (auto simp: iteration_def split: option.splits sum.splits if_splits)

lemma state_before_induct:
  assumes reach: "state_before dpbsv qsort n y lambda m ds de verbose s0 k = Some t"
    and base: "P s0"
    and step: "\<And>k s s'. P s \<Longrightarrow>
       iteration_head dpbsv n y lambda m ds de verbose (Suc k) s = Inr s' \<Longrightarrow>
       st_n_vio s' \<noteq> 0 \<Longrightarrow> P (update_partition qsort s')"
  shows "P t"
  using reach
proof (induction k arbitrary: t)
  case 0
  then show ?case using base by simp
next
  case (Suc k)
  from state_before_Suc [OF Suc.prems]
  obtain u s' where u: "state_before dpbsv qsort n y lambda m ds de verbose s0 k = Some u"
    "iteration_head dpbsv n y lambda m ds de verbose (Suc k) u = Inr s'"
    "st_n_vio s' \<noteq> 0" "t = update_partition qsort s'" by blast
  from step [OF Suc.IH [OF u(1)] u(2,3)] show ?case by (simp add: u(4))
qed

lemma state_before_queue_inv:
  assumes len: "length (st_vio_queue s) = m" and m: "0 < m" and n: "0 < n"
    and reach: "state_before dpbsv qsort n y lambda m ds de verbose
                  (initial_state n x z p m verbose s) k = Some t"
  shows "queue_inv n m t"
proof (rule state_before_induct [OF reach])
  show "queue_inv n m (initial_state n x z p m verbose s)"
    by (rule initial_state_queue_inv [OF len m n])
next
  fix k u s'
  assume "queue_inv n m u"
    "iteration_head dpbsv n y lambda m ds de verbose (Suc k) u = Inr s'" "st_n_vio s' \<noteq> 0"
  then have "queue_inv n m s'" using iteration_head_queue(1) m by blast
  then show "queue_inv n m (update_partition qsort s')"
    using queue_inv_cong [OF update_partition_frame(1)] by blast
qed

lemma queue_inv_extrema:
  assumes "queue_inv n m s" "0 < m"
  shows "st_min_queue s = Min (set (st_vio_queue s))" "st_max_queue s = Max (set (st_vio_queue s))"
proof -
  from assms(1) [unfolded queue_inv_def]
  have a: "length (st_vio_queue s) = m" "st_min_queue_index s < m" "st_max_queue_index s < m"
    "st_vio_queue s ! st_min_queue_index s = st_min_queue s"
    "st_vio_queue s ! st_max_queue_index s = st_max_queue s"
    "\<And>j. j < m \<Longrightarrow> st_min_queue s \<le> st_vio_queue s ! j"
    "\<And>j. j < m \<Longrightarrow> st_vio_queue s ! j \<le> st_max_queue s" by blast+
  have mem: "st_min_queue s \<in> set (st_vio_queue s)" "st_max_queue s \<in> set (st_vio_queue s)"
    using a(1-5) by (metis nth_mem)+
  have lo: "\<And>v. v \<in> set (st_vio_queue s) \<Longrightarrow> st_min_queue s \<le> v"
    using a(1,6) by (metis in_set_conv_nth)
  have hi: "\<And>v. v \<in> set (st_vio_queue s) \<Longrightarrow> v \<le> st_max_queue s"
    using a(1,7) by (metis in_set_conv_nth)
  show "st_min_queue s = Min (set (st_vio_queue s))"
    using mem(1) lo by (simp add: Min_eqI [symmetric])
  show "st_max_queue s = Max (set (st_vio_queue s))"
    using mem(2) hi by (simp add: Max_eqI [symmetric])
qed

lemma queue_history_push:
  assumes h: "queue_history n m h s" and len: "length (st_vio_queue s) = m" and m: "0 < m"
    and q: "st_vio_queue s' = (st_vio_queue s)[st_queue_index s := v]"
      "st_queue_index s' = (st_queue_index s + 1) mod m"
  shows "queue_history n m (h @ [v]) s'"
proof -
  from h [unfolded queue_history_def]
  have a: "st_queue_index s = length h mod m"
    "rotate (st_queue_index s) (st_vio_queue s) = drop (length h) (replicate m n @ h)"
    by blast+
  have lt: "st_queue_index s < length (st_vio_queue s)" using a(1) len m by simp
  have "rotate (st_queue_index s') (st_vio_queue s') =
      tl (rotate (st_queue_index s) (st_vio_queue s)) @ [v]"
    using rotate_push [OF lt, of v] by (simp add: q len)
  also have "\<dots> = drop (Suc (length h)) (replicate m n @ h) @ [v]"
    by (simp add: a(2) drop_Suc tl_drop del: drop_append)
  also have "\<dots> = drop (length (h @ [v])) (replicate m n @ (h @ [v]))"
    using m by simp
  finally have r: "rotate (st_queue_index s') (st_vio_queue s') =
      drop (length (h @ [v])) (replicate m n @ (h @ [v]))" .
  have "st_queue_index s' = length (h @ [v]) mod m"
    by (simp add: q(2) a(1) mod_Suc_eq)
  with r show ?thesis by (simp add: queue_history_def)
qed

lemma state_before_history:
  assumes len: "length (st_vio_queue s) = m" and m: "0 < m" and n: "0 < n"
    and reach: "state_before dpbsv qsort n y lambda m ds de verbose
                  (initial_state n x z p m verbose s) k = Some t"
  shows "queue_history n m
           (pushed_counts dpbsv qsort n y lambda m ds de verbose
              (initial_state n x z p m verbose s) k) t"
  using reach
proof (induction k arbitrary: t)
  case 0
  then have "t = initial_state n x z p m verbose s" by simp
  then show ?case
    using initial_state_queue [OF len m, of n x z p verbose]
    by (simp add: queue_history_def queue_part_def)
next
  case (Suc k)
  let ?s0 = "initial_state n x z p m verbose s"
  from state_before_Suc [OF Suc.prems]
  obtain u s' where u: "state_before dpbsv qsort n y lambda m ds de verbose ?s0 k = Some u"
    "iteration_head dpbsv n y lambda m ds de verbose (Suc k) u = Inr s'"
    "st_n_vio s' \<noteq> 0" "t = update_partition qsort s'" by blast
  have inv: "queue_inv n m u" by (rule state_before_queue_inv [OF len m n u(1)])
  have ih: "queue_history n m (pushed_counts dpbsv qsort n y lambda m ds de verbose ?s0 k) u"
    by (rule Suc.IH [OF u(1)])
  note hq = iteration_head_queue [OF inv m u(2,3)]
  have tq: "st_vio_queue t = st_vio_queue s'" "st_queue_index t = st_queue_index s'"
    using update_partition_frame(1) [of qsort s'] by (simp_all add: queue_part_def u(4))
  have lu: "length (st_vio_queue u) = m" using inv by (simp add: queue_inv_def)
  show ?case
  proof (cases "pushes (located dpbsv n y lambda u)")
    case True
    with hq(3) have q: "st_vio_queue t = (st_vio_queue u)[st_queue_index u := st_n_vio s']"
      "st_queue_index t = (st_queue_index u + 1) mod m" by (simp_all add: tq)
    from queue_history_push [OF ih lu m q] show ?thesis
      using True u(1) hq(2) by simp
  next
    case False
    with hq(3) have q: "st_vio_queue t = st_vio_queue u" "st_queue_index t = st_queue_index u"
      by (simp_all add: tq)
    have "queue_history n m (pushed_counts dpbsv qsort n y lambda m ds de verbose ?s0 k) t"
      using ih unfolding queue_history_def q by blast
    then show ?thesis using False u(1) by simp
  qed
qed

lemma state_before_queue_inv_gen:
  assumes inv0: "queue_inv n m s0" and m: "0 < m"
    and reach: "state_before dpbsv qsort n y lambda m ds de verbose s0 k = Some t"
  shows "queue_inv n m t"
proof (rule state_before_induct [OF reach, where P = "queue_inv n m"])
  show "queue_inv n m s0" by (rule inv0)
next
  fix k u s'
  assume "queue_inv n m u"
    "iteration_head dpbsv n y lambda m ds de verbose (Suc k) u = Inr s'" "st_n_vio s' \<noteq> 0"
  then have "queue_inv n m s'" using iteration_head_queue(1) m by blast
  then show "queue_inv n m (update_partition qsort s')"
    using queue_inv_cong [OF update_partition_frame(1)] by blast
qed

lemma active_set_loop_result:
  assumes m: "0 < m" and inv0: "queue_inv n m s0"
  shows "k \<le> maxiter \<Longrightarrow>
     state_before dpbsv qsort n y lambda m ds de verbose s0 k = Some s \<Longrightarrow>
     (\<exists>j u t0. k \<le> j \<and> j < maxiter \<and>
        state_before dpbsv qsort n y lambda m ds de verbose s0 j = Some u \<and>
        iteration_head dpbsv n y lambda m ds de verbose (Suc j) u = Inr t0 \<and> st_n_vio t0 = 0 \<and>
        active_set_loop dpbsv qsort n y lambda m ds de maxiter verbose (Suc k) s =
          Inr (0, print_line verbose [Solved_Line] t0))
     \<or> ((\<forall>j. k \<le> j \<and> j < maxiter \<longrightarrow>
            found_n_vio dpbsv qsort n y lambda m ds de verbose s0 j \<noteq> Some 0) \<and>
         (\<exists>u. state_before dpbsv qsort n y lambda m ds de verbose s0 maxiter = Some u \<and>
            active_set_loop dpbsv qsort n y lambda m ds de maxiter verbose (Suc k) s =
              Inr (- 1, print_line verbose [Maxiter_Line] u)))"
proof (induction "maxiter - k" arbitrary: k s)
  case 0
  then have k: "k = maxiter" by simp
  have "active_set_loop dpbsv qsort n y lambda m ds de maxiter verbose (Suc k) s =
      Inr (- 1, print_line verbose [Maxiter_Line] s)"
    by (subst active_set_loop.simps) (simp add: k)
  then show ?case using 0(3) k by auto
next
  case (Suc d)
  then have k: "k < maxiter" "d = maxiter - Suc k" "Suc k \<le> maxiter" by simp_all
  have inv: "queue_inv n m s" by (rule state_before_queue_inv_gen [OF inv0 m Suc.prems(2)])
  from iteration_head_total [OF inv m]
  obtain t0 where h: "iteration_head dpbsv n y lambda m ds de verbose (Suc k) s = Inr t0"
    by blast
  have f: "found_n_vio dpbsv qsort n y lambda m ds de verbose s0 k = Some (st_n_vio t0)"
    by (simp add: found_n_vio_def Suc.prems(2) h)
  show ?case
  proof (cases "st_n_vio t0 = 0")
    case True
    have "active_set_loop dpbsv qsort n y lambda m ds de maxiter verbose (Suc k) s =
        Inr (0, print_line verbose [Solved_Line] t0)"
      by (subst active_set_loop.simps) (simp add: k(3) h True)
    then show ?thesis using k(1) Suc.prems(2) h True by blast
  next
    case False
    have nx: "state_before dpbsv qsort n y lambda m ds de verbose s0 (Suc k) =
        Some (update_partition qsort t0)"
      by (simp add: Suc.prems(2) iteration_def h False)
    have unf: "active_set_loop dpbsv qsort n y lambda m ds de maxiter verbose (Suc k) s =
        active_set_loop dpbsv qsort n y lambda m ds de maxiter verbose (Suc (Suc k))
          (update_partition qsort t0)"
      by (subst active_set_loop.simps) (simp add: k(3) h False)
    from Suc.hyps(1) [OF k(2) k(3) nx]
    show ?thesis
    proof
      assume "\<exists>j u t1. Suc k \<le> j \<and> j < maxiter \<and>
        state_before dpbsv qsort n y lambda m ds de verbose s0 j = Some u \<and>
        iteration_head dpbsv n y lambda m ds de verbose (Suc j) u = Inr t1 \<and> st_n_vio t1 = 0 \<and>
        active_set_loop dpbsv qsort n y lambda m ds de maxiter verbose (Suc (Suc k))
          (update_partition qsort t0) = Inr (0, print_line verbose [Solved_Line] t1)"
      then obtain j u t1 where "Suc k \<le> j" "j < maxiter"
        "state_before dpbsv qsort n y lambda m ds de verbose s0 j = Some u"
        "iteration_head dpbsv n y lambda m ds de verbose (Suc j) u = Inr t1" "st_n_vio t1 = 0"
        "active_set_loop dpbsv qsort n y lambda m ds de maxiter verbose (Suc (Suc k))
          (update_partition qsort t0) = Inr (0, print_line verbose [Solved_Line] t1)"
        by blast
      then have "k \<le> j \<and> j < maxiter \<and>
        state_before dpbsv qsort n y lambda m ds de verbose s0 j = Some u \<and>
        iteration_head dpbsv n y lambda m ds de verbose (Suc j) u = Inr t1 \<and> st_n_vio t1 = 0 \<and>
        active_set_loop dpbsv qsort n y lambda m ds de maxiter verbose (Suc k) s =
          Inr (0, print_line verbose [Solved_Line] t1)"
        by (simp add: unf)
      then show ?thesis by blast
    next
      assume a: "(\<forall>j. Suc k \<le> j \<and> j < maxiter \<longrightarrow>
            found_n_vio dpbsv qsort n y lambda m ds de verbose s0 j \<noteq> Some 0) \<and>
         (\<exists>u. state_before dpbsv qsort n y lambda m ds de verbose s0 maxiter = Some u \<and>
            active_set_loop dpbsv qsort n y lambda m ds de maxiter verbose (Suc (Suc k))
              (update_partition qsort t0) = Inr (- 1, print_line verbose [Maxiter_Line] u))"
      have "\<forall>j. k \<le> j \<and> j < maxiter \<longrightarrow>
            found_n_vio dpbsv qsort n y lambda m ds de verbose s0 j \<noteq> Some 0"
      proof (intro allI impI)
        fix j assume j: "k \<le> j \<and> j < maxiter"
        show "found_n_vio dpbsv qsort n y lambda m ds de verbose s0 j \<noteq> Some 0"
        proof (cases "j = k")
          case True
          then show ?thesis using f False by simp
        next
          case False
          then have "Suc k \<le> j \<and> j < maxiter" using j by simp
          with a show ?thesis by blast
        qed
      qed
      with a show ?thesis by (simp add: unf)
    qed
  qed
qed

lemma update_dual_eq:
  "update_dual dpbsv n y z lambda dv ab b =
     (case dpbsv (fst (update_dual_div n z dv))
             (fst (update_dual_fill n (fst (update_dual_div n z dv)) y z lambda
                     (snd (update_dual_div n z dv)) ab b))
             (snd (update_dual_fill n (fst (update_dual_div n z dv)) y z lambda
                     (snd (update_dual_div n z dv)) ab b)) of
        (result, ab2, b2) \<Rightarrow>
          \<lparr>ud_k = fst (update_dual_div n z dv), ud_z = update_dual_copy n b2 z,
           ud_div_zi = snd (update_dual_div n z dv), ud_ab = ab2, ud_b = b2,
           ud_result = result\<rparr>)"
  by (simp add: update_dual_def Let_def split: prod.splits)

lemma update_dual_div_count:
  "fst (update_dual_div n z dv) = n - 2 - length (filter (inactive z) [0..<n - 2])"
proof -
  have "fst (fold (update_dual_div_body z) [0..<n - 2] (n - 2, dv[0 := 0, 1 := 0])) =
      n - 2 - length (filter (inactive z) [0..<n - 2])"
    by (rule fold_upt_invariant [where P = "\<lambda>m t. fst t = n - 2 - length (filter (inactive z) [0..<m])"])
       (auto simp: update_dual_div_body_def Let_def inactive_def split: prod.splits)
  then show ?thesis by (simp add: update_dual_div_def Let_def)
qed

lemma length_filter_upt_card: "length (filter P [0..<N]) = card {i. i < N \<and> P i}"
proof -
  have "{i. i < length [0..<N] \<and> P ([0..<N] ! i)} = {i. i < N \<and> P i}" by auto
  then show ?thesis by (simp add: length_filter_conv_card)
qed

lemma update_dual_k:
  "ud_k (update_dual dpbsv n y z lambda dv ab b) =
     n - 2 - card {i. i < n - 2 \<and> (z ! i = 1 \<or> z ! i = - 1)}"
proof -
  have "ud_k (update_dual dpbsv n y z lambda dv ab b) = fst (update_dual_div n z dv)"
    by (simp add: update_dual_eq split: prod.splits)
  then show ?thesis
    by (simp add: update_dual_div_count length_filter_upt_card inactive_def)
qed

lemma div_spec_adjoint:
  assumes N: "2 \<le> N" and j: "j < N + 2"
  shows "div_spec z N j =
     adjoint_spec N (map (\<lambda>i. if z ! i = 1 \<or> z ! i = - 1 then z ! i else 0) [0..<N]) j"
proof -
  let ?zs = "map (\<lambda>i. if z ! i = 1 \<or> z ! i = - 1 then z ! i else 0) [0..<N]"
  have zs: "\<And>i. i < N \<Longrightarrow> ?zs ! i = inactive_part z N i"
    by (simp add: inactive_part_def inactive_def)
  have out: "\<And>i. N \<le> i \<Longrightarrow> inactive_part z N i = 0"
    by (simp add: inactive_part_def)
  consider "j = 0" | "j = 1" | "2 \<le> j" "j < N" | "j = N" | "j = N + 1"
    using j by linarith
  then show ?thesis
  proof cases
    case 1
    then show ?thesis using N zs [of 0] by (simp add: div_spec_def adjoint_spec_def)
  next
    case 2
    then show ?thesis using N zs [of 0] zs [of 1] by (simp add: div_spec_def adjoint_spec_def)
  next
    case 3
    then show ?thesis using zs [of j] zs [of "j - 1"] zs [of "j - 2"]
      by (simp add: div_spec_def adjoint_spec_def adjoint_stencil_def)
  next
    case 4
    then have "j \<noteq> 0" "j \<noteq> 1" "\<not> j < N" using N by auto
    then show ?thesis using 4 N zs [of "N - 1"] zs [of "N - 2"] out [of N]
      by (simp add: div_spec_def adjoint_spec_def)
  next
    case 5
    then have "j \<noteq> 0" "j \<noteq> 1" "\<not> j < N" "j \<noteq> N" "j - 2 = N - 1" "j - 1 = N" using N by auto
    then show ?thesis using N zs [of "N - 1"] out [of N] out [of "N + 1"] 5
      by (simp add: div_spec_def adjoint_spec_def)
  qed
qed

lemma update_dual_div_adjoint:
  assumes n: "4 \<le> n" and ld: "length dv0 = n" "length d = n"
  shows "snd (update_dual_div n z dv0) =
     DTx (n - 2) (map (\<lambda>i. if z ! i = 1 \<or> z ! i = - 1 then z ! i else 0) [0..<n - 2]) d"
proof (rule nth_equalityI)
  let ?zs = "map (\<lambda>i. if z ! i = 1 \<or> z ! i = - 1 then z ! i else 0) [0..<n - 2]"
  obtain k dv where r: "update_dual_div n z dv0 = (k, dv)" by (metis prod.exhaust)
  have n2: "2 \<le> n - 2" "length d = n - 2 + 2" "n - 2 + 2 = n" "2 \<le> n" "n \<le> length dv0"
    using n ld by auto
  from update_dual_div_loop [OF n2(5) n2(4), of z, unfolded r div_loop_inv_def prod.case]
  have i: "length dv = length dv0"
    "\<And>j. j < length dv0 \<Longrightarrow> dv ! j = (if j < n - 2 + 2 then div_spec z (n - 2) j else dv0 ! j)"
    by blast+
  show "length (snd (update_dual_div n z dv0)) = length (DTx (n - 2) ?zs d)"
    using i(1) ld DTx_nth(1) [OF n2(1,2)] n2(3) by (simp add: r)
  fix j assume "j < length (snd (update_dual_div n z dv0))"
  then have j: "j < n" using i(1) ld by (simp add: r)
  then have j2: "j < n - 2 + 2" using n2(3) by simp
  have "dv ! j = div_spec z (n - 2) j" using i(2) [of j] j j2 ld by simp
  also have "\<dots> = adjoint_spec (n - 2) ?zs j" by (rule div_spec_adjoint [OF n2(1) j2])
  also have "\<dots> = DTx (n - 2) ?zs d ! j" using DTx_nth(2) [OF n2(1,2) j2] by simp
  finally show "snd (update_dual_div n z dv0) ! j = DTx (n - 2) ?zs d ! j" by (simp add: r)
qed

lemma iteration_head_xz:
  assumes "iteration_head dpbsv n y lambda m ds de verbose iter s = Inr s'"
  shows "st_x s' = update_primal n (st_x s) y (st_z s') lambda"
    and "length (st_z s') = length (st_z s)"
    and "st_n_active s' = n - 2 - card {i. i < n - 2 \<and> (st_z s ! i = 1 \<or> st_z s ! i = - 1)}"
proof -
  let ?m = "subspace_minimization dpbsv n y lambda s"
  from assms obtain u where u: "update_queue n m ds de (located dpbsv n y lambda s) = Inr u"
    "s' = print_status verbose iter u"
    by (auto simp: iteration_head_eq split: sum.splits)
  note f = update_queue_frame [OF u(1)]
  have x: "st_x s' = st_x ?m" using f by (simp add: u(2) print_frame located_def count_violators_frame)
  have z: "st_z s' = st_z ?m" using f by (simp add: u(2) print_frame located_def count_violators_frame)
  show "st_x s' = update_primal n (st_x s) y (st_z s') lambda"
    using subspace_minimization_x [of dpbsv n y lambda s] by (simp add: x z)
  show "length (st_z s') = length (st_z s)"
    by (simp add: z subspace_minimization_z update_dual_length_z)
  show "st_n_active s' = n - 2 - card {i. i < n - 2 \<and> (st_z s ! i = 1 \<or> st_z s ! i = - 1)}"
    using f by (simp add: u(2) print_frame located_def count_violators_frame
        subspace_minimization_n_active update_dual_k)
qed









text \<open>
  \<^bold>\<open>Claim C2.\<close>  For \<open>i\<close> in \<open>[0, n - 3]\<close>, \<^verbatim>\<open>locate_violators\<close> marks \<open>i\<close> a violator
  exactly when \<open>z\<^sub>i = 1\<close> and \<open>diff_x\<^sub>i < 0\<close>, or \<open>z\<^sub>i = -1\<close> and \<open>diff_x\<^sub>i > 0\<close>, or
  \<open>z\<^sub>i\<close> is neither and \<open>\<bar>z\<^sub>i\<bar> > 1\<close> (the predicate \<^const>\<open>is_violator\<close>); the
  fitness is \<open>max (\<lambda> \<bar>diff_x\<^sub>i\<bar>) 1\<close> in the first two cases and
  \<open>max (\<lambda> \<bar>diff_x\<^sub>i\<bar>) \<bar>z\<^sub>i\<bar>\<close> in the third (\<^const>\<open>violator_fitness\<close>).  The function
  returns the number of violators; the first \<open>n_vio\<close> entries of \<^verbatim>\<open>vio_index\<close> are the
  violators in increasing order, those of \<^verbatim>\<open>vio_fitness\<close> their fitnesses, those of
  \<^verbatim>\<open>vio_sort\<close> the identity permutation \<open>0, \<dots>, n_vio - 1\<close>; the rest of the three
  buffers is left as it was.
\<close>

theorem locate_violators_characterization:
  assumes "n - 2 \<le> length vio_index" "n - 2 \<le> length vio_fitness" "n - 2 \<le> length vio_sort"
  shows "case locate_violators n z lambda diff_x vio_index vio_fitness vio_sort of
     (n_vio, vi, vf, vs) \<Rightarrow>
       n_vio = card {i. i < n - 2 \<and> is_violator z diff_x i} \<and>
       (\<forall>i<n - 2. i \<in> set (take n_vio vi) \<longleftrightarrow> is_violator z diff_x i) \<and>
       take n_vio vi = filter (is_violator z diff_x) [0..<n - 2] \<and>
       sorted_wrt (<) (take n_vio vi) \<and>
       take n_vio vf = map (violator_fitness z lambda diff_x) (take n_vio vi) \<and>
       take n_vio vs = [0..<n_vio] \<and>
       length vi = length vio_index \<and> length vf = length vio_fitness \<and>
       length vs = length vio_sort \<and>
       drop n_vio vi = drop n_vio vio_index \<and> drop n_vio vf = drop n_vio vio_fitness \<and>
       drop n_vio vs = drop n_vio vio_sort"
proof -
  obtain nv vi vf vs where
    r: "locate_violators n z lambda diff_x vio_index vio_fitness vio_sort = (nv, vi, vf, vs)"
    by (metis prod_cases4)
  from locate_violators_loop [OF assms, of z lambda diff_x,
      unfolded r locate_loop_inv_def prod.case]
  have i: "nv = length (violators z diff_x (n - 2))"
    "length vi = length vio_index" "length vf = length vio_fitness" "length vs = length vio_sort"
    "take nv vi = violators z diff_x (n - 2)"
    "take nv vf = map (violator_fitness z lambda diff_x) (violators z diff_x (n - 2))"
    "take nv vs = [0..<nv]"
    "drop nv vi = drop nv vio_index" "drop nv vf = drop nv vio_fitness"
    "drop nv vs = drop nv vio_sort"
    by blast+
  have c: "nv = card {i. i < n - 2 \<and> is_violator z diff_x i}"
    by (simp add: i(1) violators_def length_filter_upt_card)
  have m: "\<forall>i<n - 2. i \<in> set (take nv vi) \<longleftrightarrow> is_violator z diff_x i"
    by (simp add: i(5) violators_def)
  have s: "sorted_wrt (<) (take nv vi)"
    by (simp add: i(5) sorted_wrt_violators)
  have f: "take nv vi = filter (is_violator z diff_x) [0..<n - 2]"
    by (simp add: i(5) violators_def)
  have g: "take nv vf = map (violator_fitness z lambda diff_x) (take nv vi)"
    by (simp add: i(5,6))
  show ?thesis
    unfolding r prod.case using c m f s g i(2,3,4,7,8,9,10) by blast
qed

theorem locate_violators_characterization_witness:
  "locate_violators 4 [1, 3 / 2] 1 [- 2, 0] [7, 7] [0, 0] [9, 9] = (2, [0, 1], [2, 3 / 2], [0, 1]) \<and>
   card {i. i < 4 - 2 \<and> is_violator [1, 3 / 2] [- 2, 0] i} = 2 \<and>
   filter (is_violator [1, 3 / 2] [- 2, 0]) [0..<4 - 2] = [0, 1] \<and>
   map (violator_fitness [1, 3 / 2] 1 [- 2, 0]) [0, 1] = [2, 3 / 2]"
proof -
  have e: "locate_violators 4 [1, 3 / 2] 1 [- 2, 0] [7, 7] [0, 0] [9, 9] =
      (2, [0, 1], [2, 3 / 2], [0, 1])" by code_simp
  have h: "4 - 2 \<le> length [7, 7 :: nat]" "4 - 2 \<le> length [0, 0 :: real]"
    "4 - 2 \<le> length [9, 9 :: nat]" by simp_all
  from locate_violators_characterization [OF h, where z = "[1, 3 / 2]" and lambda = 1
      and diff_x = "[- 2, 0]", unfolded e prod.case]
  have t: "2 = card {i. i < 4 - 2 \<and> is_violator [1, 3 / 2] [- 2, 0] i}"
    "take 2 [0, 1] = filter (is_violator [1, 3 / 2] [- 2, 0]) [0..<4 - 2]"
    "take 2 [2, 3 / 2] = map (violator_fitness [1, 3 / 2] 1 [- 2, 0]) (take 2 [0, 1])"
    by blast+
  have a: "card {i. i < 4 - 2 \<and> is_violator [1, 3 / 2] [- 2, 0] i} = 2"
    using t(1) by (rule sym)
  have b: "filter (is_violator [1, 3 / 2] [- 2, 0]) [0..<4 - 2] = [0, 1]"
    using t(2) [symmetric] by simp
  have c: "map (violator_fitness [1, 3 / 2] 1 [- 2, 0]) [0, 1] = [2, 3 / 2]"
    using t(3) [symmetric] by simp
  from e a b c show ?thesis by blast
qed

text \<open>
  \<^bold>\<open>Claim C4.\<close>  \<^verbatim>\<open>reassign_violators\<close> is called with \<open>n_vio\<close> selected indices
  \<open>vio_index[vio_sort[i]]\<close>, \<open>i < n_vio\<close>, that are in range and distinct.  For each of
  them: a \<open>z\<close> equal to \<open>1\<close> or to \<open>-1\<close> becomes \<open>0\<close>, a \<open>z\<close> above \<open>1\<close> becomes \<open>1\<close>,
  a \<open>z\<close> below \<open>-1\<close> becomes \<open>-1\<close>.  Hence after the call every selected index that
  was a violator (\<open>z\<close> equal to \<open>\<plusminus>1\<close> or outside \<open>[-1, 1]\<close>) has \<open>z\<close> in \<open>{1, 0, -1}\<close>.
\<close>

theorem reassign_violators_mapping:
  assumes rng: "n_vio \<le> length vio_sort"
      "\<forall>i<n_vio. vio_sort ! i < length vio_index \<and> vio_index ! (vio_sort ! i) < length z"
    and dist: "distinct (map (\<lambda>i. vio_index ! (vio_sort ! i)) [0..<n_vio])"
  shows "\<forall>i<n_vio.
     (z ! (vio_index ! (vio_sort ! i)) = 1 \<longrightarrow>
        reassign_violators n_vio z vio_index vio_sort ! (vio_index ! (vio_sort ! i)) = 0) \<and>
     (z ! (vio_index ! (vio_sort ! i)) = - 1 \<longrightarrow>
        reassign_violators n_vio z vio_index vio_sort ! (vio_index ! (vio_sort ! i)) = 0) \<and>
     (z ! (vio_index ! (vio_sort ! i)) > 1 \<longrightarrow>
        reassign_violators n_vio z vio_index vio_sort ! (vio_index ! (vio_sort ! i)) = 1) \<and>
     (z ! (vio_index ! (vio_sort ! i)) < - 1 \<longrightarrow>
        reassign_violators n_vio z vio_index vio_sort ! (vio_index ! (vio_sort ! i)) = - 1) \<and>
     (z ! (vio_index ! (vio_sort ! i)) = 1 \<or> z ! (vio_index ! (vio_sort ! i)) = - 1 \<or>
      z ! (vio_index ! (vio_sort ! i)) > 1 \<or> z ! (vio_index ! (vio_sort ! i)) < - 1 \<longrightarrow>
        reassign_violators n_vio z vio_index vio_sort ! (vio_index ! (vio_sort ! i)) \<in> {1, 0, - 1})"
proof -
  have sel: "(\<lambda>i. vio_index ! (vio_sort ! i)) = selected vio_index vio_sort"
    by (simp add: selected_def fun_eq_iff)
  have inj: "inj_on (selected vio_index vio_sort) {0..<n_vio}"
    using dist by (simp add: sel distinct_map)
  have r: "\<forall>i<n_vio. selected vio_index vio_sort i < length z"
    using rng(2) by (simp add: selected_def)
  from reassign_violators_selected [OF inj r le_refl]
  have "\<forall>i<n_vio. reassign_violators n_vio z vio_index vio_sort ! (vio_index ! (vio_sort ! i))
      = reassign_value (z ! (vio_index ! (vio_sort ! i)))"
    by (simp add: selected_def)
  then show ?thesis by (auto simp: reassign_value_def)
qed

theorem reassign_violators_mapping_witness:
  "reassign_violators 4 [1, 3 / 2, - 1, - 2, 1 / 2] [0, 1, 2, 3] [3, 1, 0, 2]
     = [0, 1, 0, - 1, 1 / 2] \<and>
   reassign_violators 4 [1, 3 / 2, - 1, - 2, 1 / 2] [0, 1, 2, 3] [3, 1, 0, 2] ! 0 = 0 \<and>
   reassign_violators 4 [1, 3 / 2, - 1, - 2, 1 / 2] [0, 1, 2, 3] [3, 1, 0, 2] ! 1 = 1 \<and>
   reassign_violators 4 [1, 3 / 2, - 1, - 2, 1 / 2] [0, 1, 2, 3] [3, 1, 0, 2] ! 2 = 0 \<and>
   reassign_violators 4 [1, 3 / 2, - 1, - 2, 1 / 2] [0, 1, 2, 3] [3, 1, 0, 2] ! 3 = - 1"
proof -
  let ?z = "[1, 3 / 2, - 1, - 2, 1 / 2] :: real list"
  let ?vi = "[0, 1, 2, 3] :: nat list"
  let ?vs = "[3, 1, 0, 2] :: nat list"
  have e: "reassign_violators 4 ?z ?vi ?vs = [0, 1, 0, - 1, 1 / 2]" by code_simp
  have up: "[0..<4] = [0, 1, 2, 3]" by code_simp
  have h1: "4 \<le> length ?vs" by simp
  have h2: "\<forall>i<4. ?vs ! i < length ?vi \<and> ?vi ! (?vs ! i) < length ?z"
    by (simp add: less_Suc_eq eval_nat_numeral)
  have h3: "distinct (map (\<lambda>i. ?vi ! (?vs ! i)) [0..<4])"
    by (simp add: up)
  note t = reassign_violators_mapping [OF h1 h2 h3, rule_format]
  have a: "reassign_violators 4 ?z ?vi ?vs ! 0 = 0" using t [of 2] by simp
  have b: "reassign_violators 4 ?z ?vi ?vs ! 1 = 1" using t [of 1] by simp
  have c: "reassign_violators 4 ?z ?vi ?vs ! 2 = 0" using t [of 3] by simp
  have d: "reassign_violators 4 ?z ?vi ?vs ! 3 = - 1" using t [of 0] by simp
  from e a b c d show ?thesis by blast
qed

text \<open>
  \<^bold>\<open>Claim C10.\<close>  \<^verbatim>\<open>reassign_violators(n_vio, z, vio_index, vio_sort)\<close> keeps the
  length of \<open>z\<close> and every coordinate of \<open>z\<close> that is not one of
  \<open>vio_index[vio_sort[i]]\<close>, \<open>i < n_vio\<close>.  The call in the driver changes the field
  \<^const>\<open>st_z\<close> alone, so \<^verbatim>\<open>vio_index\<close>, \<^verbatim>\<open>vio_sort\<close> and every other
  variable are as before the call.
\<close>

theorem reassign_violators_frame_property:
  assumes "n_vio \<le> length vio_sort"
    "\<forall>i<n_vio. vio_sort ! i < length vio_index \<and> vio_index ! (vio_sort ! i) < length z"
  shows "length (reassign_violators n_vio z vio_index vio_sort) = length z \<and>
     (\<forall>j<length z. j \<notin> (\<lambda>i. vio_index ! (vio_sort ! i)) ` {0..<n_vio} \<longrightarrow>
        reassign_violators n_vio z vio_index vio_sort ! j = z ! j) \<and>
     (\<forall>s. call_reassign_violators s =
        s\<lparr>st_z := reassign_violators (st_n_vio s) (st_z s) (st_vio_index s) (st_vio_sort s)\<rparr> \<and>
        st_vio_index (call_reassign_violators s) = st_vio_index s \<and>
        st_vio_sort (call_reassign_violators s) = st_vio_sort s \<and>
        st_vio_fitness (call_reassign_violators s) = st_vio_fitness s \<and>
        st_n_vio (call_reassign_violators s) = st_n_vio s \<and>
        st_x (call_reassign_violators s) = st_x s)"
proof -
  have sel: "selected vio_index vio_sort = (\<lambda>i. vio_index ! (vio_sort ! i))"
    by (simp add: selected_def fun_eq_iff)
  show ?thesis
    using reassign_violators_frame [of n_vio z vio_index vio_sort, unfolded sel]
    by (simp add: call_reassign_violators_def)
qed

theorem reassign_violators_frame_property_witness:
  "length (reassign_violators 2 [1, 3 / 2, - 1, - 2, 1 / 2] [0, 1, 2, 3] [3, 1, 0, 2]) = 5 \<and>
   reassign_violators 2 [1, 3 / 2, - 1, - 2, 1 / 2] [0, 1, 2, 3] [3, 1, 0, 2] ! 0 = 1 \<and>
   reassign_violators 2 [1, 3 / 2, - 1, - 2, 1 / 2] [0, 1, 2, 3] [3, 1, 0, 2] ! 2 = - 1 \<and>
   reassign_violators 2 [1, 3 / 2, - 1, - 2, 1 / 2] [0, 1, 2, 3] [3, 1, 0, 2] ! 4 = 1 / 2 \<and>
   reassign_violators 2 [1, 3 / 2, - 1, - 2, 1 / 2] [0, 1, 2, 3] [3, 1, 0, 2]
     = [1, 1, - 1, - 1, 1 / 2]"
proof -
  let ?z = "[1, 3 / 2, - 1, - 2, 1 / 2] :: real list"
  let ?vi = "[0, 1, 2, 3] :: nat list"
  let ?vs = "[3, 1, 0, 2] :: nat list"
  have e: "reassign_violators 2 ?z ?vi ?vs = [1, 1, - 1, - 1, 1 / 2]" by code_simp
  have h1: "2 \<le> length ?vs" by simp
  have h2: "\<forall>i<2. ?vs ! i < length ?vi \<and> ?vi ! (?vs ! i) < length ?z"
    by (simp add: less_Suc_eq eval_nat_numeral)
  have img: "(\<lambda>i. ?vi ! (?vs ! i)) ` {0..<2} = {3, 1}"
    by (auto simp: eval_nat_numeral atLeast0_lessThan_Suc)
  from reassign_violators_frame_property [OF h1 h2]
  have l: "length (reassign_violators 2 ?z ?vi ?vs) = length ?z"
    and f: "\<And>j. j < length ?z \<Longrightarrow> j \<notin> (\<lambda>i. ?vi ! (?vs ! i)) ` {0..<2} \<Longrightarrow>
        reassign_violators 2 ?z ?vi ?vs ! j = ?z ! j"
    by blast+
  have n0: "0 \<notin> (\<lambda>i. ?vi ! (?vs ! i)) ` {0..<2}" "2 \<notin> (\<lambda>i. ?vi ! (?vs ! i)) ` {0..<2}"
    "4 \<notin> (\<lambda>i. ?vi ! (?vs ! i)) ` {0..<2}" unfolding img by simp_all
  have a: "reassign_violators 2 ?z ?vi ?vs ! 0 = 1" using f [OF _ n0(1)] by simp
  have b: "reassign_violators 2 ?z ?vi ?vs ! 2 = - 1" using f [OF _ n0(2)] by simp
  have c: "reassign_violators 2 ?z ?vi ?vs ! 4 = 1 / 2" using f [OF _ n0(3)] by simp
  from l a b c e show ?thesis by simp
qed

text \<open>
  \<^bold>\<open>Claim C3.\<close>  Let \<open>i\<close> be the \<open>t\<close>-th active index (\<open>z\<^sub>i\<close> neither \<open>1\<close> nor \<open>-1\<close>) and
  \<open>k\<close> the number of active indices.  Before the solver is called, \<^verbatim>\<open>update_dual\<close>
  has set the main-diagonal entry \<open>ab[t + 2k]\<close> to \<open>6\<close>; the first-superdiagonal entry
  \<open>ab[t + k]\<close> to \<open>-4\<close> if \<open>i - prev = 1\<close>, to \<open>1\<close> if \<open>i - prev = 2\<close>, else to \<open>0\<close>;
  the second-superdiagonal entry \<open>ab[t]\<close> to \<open>1\<close> if \<open>i - prev2 = 2\<close>, else to \<open>0\<close>
  (\<open>prev\<close> and \<open>prev2\<close> the two active indices before \<open>i\<close>, \<open>-3\<close> when there is none);
  and \<open>b[t]\<close> to \<open>(2 y\<^sub>i\<^sub>+\<^sub>1 - y\<^sub>i - y\<^sub>i\<^sub>+\<^sub>2) / \<lambda> - 2 div_zi\<^sub>i\<^sub>+\<^sub>1 + div_zi\<^sub>i + div_zi\<^sub>i\<^sub>+\<^sub>2\<close>, where
  \<^verbatim>\<open>div_zi\<close> is \<open>D\<^sup>T\<close> applied to \<open>z\<close> with its active coordinates set to zero.  The
  solver is called with \<open>k\<close> and these two buffers.  (\<^const>\<open>assembled\<close> is the pair of
  buffers after the second loop of \<^verbatim>\<open>update_dual\<close>.)
\<close>

theorem reduced_system_assembly:
  assumes n: "4 \<le> n" and lam: "0 < lambda"
    and len: "length z = n - 2" "length y = n" "length div_zi = n" "length ab = 3 * n"
      "length b = n"
  shows "fst (update_dual_div n z div_zi) = length (active_list z (n - 2)) \<and>
     snd (update_dual_div n z div_zi) =
       DTx (n - 2) (map (\<lambda>i. if z ! i = 1 \<or> z ! i = - 1 then z ! i else 0) [0..<n - 2])
         (replicate n 0) \<and>
     (\<forall>t<length (active_list z (n - 2)).
        fst (assembled n y z lambda div_zi ab b) ! (t + 2 * length (active_list z (n - 2))) = 6 \<and>
        fst (assembled n y z lambda div_zi ab b) ! (t + length (active_list z (n - 2))) =
          (if int (active_list z (n - 2) ! t) - band_prev (active_list z (n - 2)) t = 1 then - 4
           else if int (active_list z (n - 2) ! t) - band_prev (active_list z (n - 2)) t = 2
           then 1 else 0) \<and>
        fst (assembled n y z lambda div_zi ab b) ! t =
          (if int (active_list z (n - 2) ! t) - band_prev2 (active_list z (n - 2)) t = 2
           then 1 else 0) \<and>
        snd (assembled n y z lambda div_zi ab b) ! t =
          (2 * y ! (active_list z (n - 2) ! t + 1) - y ! (active_list z (n - 2) ! t)
             - y ! (active_list z (n - 2) ! t + 2)) / lambda
          - 2 * snd (update_dual_div n z div_zi) ! (active_list z (n - 2) ! t + 1)
          + snd (update_dual_div n z div_zi) ! (active_list z (n - 2) ! t)
          + snd (update_dual_div n z div_zi) ! (active_list z (n - 2) ! t + 2)) \<and>
     (\<forall>dpbsv. update_dual dpbsv n y z lambda div_zi ab b =
        (case dpbsv (fst (update_dual_div n z div_zi)) (fst (assembled n y z lambda div_zi ab b))
                (snd (assembled n y z lambda div_zi ab b)) of
           (result, ab2, b2) \<Rightarrow>
             \<lparr>ud_k = fst (update_dual_div n z div_zi), ud_z = update_dual_copy n b2 z,
              ud_div_zi = snd (update_dual_div n z div_zi), ud_ab = ab2, ud_b = b2,
              ud_result = result\<rparr>))"
proof -
  let ?acts = "active_list z (n - 2)"
  let ?K = "length ?acts"
  let ?dv = "snd (update_dual_div n z div_zi)"
  have k: "fst (update_dual_div n z div_zi) = ?K"
    by (simp add: update_dual_div_count count_active)
  have dv: "?dv = DTx (n - 2) (map (\<lambda>i. if z ! i = 1 \<or> z ! i = - 1 then z ! i else 0) [0..<n - 2])
         (replicate n 0)"
    by (rule update_dual_div_adjoint [OF n len(3)]) simp
  have Kn: "?K \<le> n - 2"
    unfolding active_list_def by (metis diff_zero length_filter_le length_upt)
  then have l: "3 * ?K \<le> length ab" "?K \<le> length b" using len n by simp_all
  obtain ik p1 p2 ab' b' where f:
    "fold (update_dual_fill_body ?K y z lambda ?dv) [0..<n - 2] (0, - 3, - 3, ab, b) =
       (ik, p1, p2, ab', b')" by (metis prod_cases5)
  from update_dual_fill_loop [OF le_refl l, of y lambda ?dv,
      unfolded f fill_loop_inv_def prod.case]
  have i: "ik = ?K"
    "\<And>t. t < ik \<Longrightarrow> ab' ! (t + 2 * ?K) = 6 \<and> ab' ! (t + ?K) = super1 ?acts t \<and>
        ab' ! t = super2 ?acts t \<and> b' ! t = target y lambda ?dv (?acts ! t)"
    by blast+
  have a: "assembled n y z lambda div_zi ab b = (ab', b')"
    by (simp add: assembled_def update_dual_fill_def k f)
  have e: "\<forall>t<?K.
        ab' ! (t + 2 * ?K) = 6 \<and>
        ab' ! (t + ?K) =
          (if int (?acts ! t) - band_prev ?acts t = 1 then - 4
           else if int (?acts ! t) - band_prev ?acts t = 2 then 1 else 0) \<and>
        ab' ! t = (if int (?acts ! t) - band_prev2 ?acts t = 2 then 1 else 0) \<and>
        b' ! t =
          (2 * y ! (?acts ! t + 1) - y ! (?acts ! t) - y ! (?acts ! t + 2)) / lambda
          - 2 * ?dv ! (?acts ! t + 1) + ?dv ! (?acts ! t) + ?dv ! (?acts ! t + 2)"
    using i(2) by (simp add: i(1) super1_def super2_def target_def)
  have u: "\<forall>dpbsv. update_dual dpbsv n y z lambda div_zi ab b =
        (case dpbsv (fst (update_dual_div n z div_zi)) ab' b' of
           (result, ab2, b2) \<Rightarrow>
             \<lparr>ud_k = fst (update_dual_div n z div_zi), ud_z = update_dual_copy n b2 z,
              ud_div_zi = ?dv, ud_ab = ab2, ud_b = b2, ud_result = result\<rparr>)"
    using a by (simp add: update_dual_eq assembled_def)
  show ?thesis
    unfolding a fst_conv snd_conv using k dv e u by blast
qed

theorem reduced_system_assembly_witness:
  "active_list [0, 0, 0] (5 - 2) = [0, 1, 2] \<and>
   update_dual_div 5 [0, 0, 0] (replicate 5 7) = (3, [0, 0, 0, 0, 0]) \<and>
   assembled 5 [0, 20, 0, 0, 0] [0, 0, 0] 1 (replicate 5 7) (replicate 15 7) (replicate 5 7) =
     ([0, 0, 1, 0, - 4, - 4, 6, 6, 6, 7, 7, 7, 7, 7, 7], [40, - 20, 0, 7, 7]) \<and>
   fst (assembled 5 [0, 20, 0, 0, 0] [0, 0, 0] 1 (replicate 5 7) (replicate 15 7) (replicate 5 7))
     ! (2 + 2 * 3) = 6 \<and>
   fst (assembled 5 [0, 20, 0, 0, 0] [0, 0, 0] 1 (replicate 5 7) (replicate 15 7) (replicate 5 7))
     ! (2 + 3) = - 4 \<and>
   fst (assembled 5 [0, 20, 0, 0, 0] [0, 0, 0] 1 (replicate 5 7) (replicate 15 7) (replicate 5 7))
     ! 2 = 1"
proof -
  let ?y = "[0, 20, 0, 0, 0] :: real list"
  let ?z = "[0, 0, 0] :: real list"
  have acts: "active_list ?z (5 - 2) = [0, 1, 2]" by code_simp
  have d: "update_dual_div 5 ?z (replicate 5 7) = (3, [0, 0, 0, 0, 0])" by code_simp
  have a: "assembled 5 ?y ?z 1 (replicate 5 7) (replicate 15 7) (replicate 5 7) =
     ([0, 0, 1, 0, - 4, - 4, 6, 6, 6, 7, 7, 7, 7, 7, 7], [40, - 20, 0, 7, 7])" by code_simp
  have h: "(4::nat) \<le> 5" "(0::real) < 1" "length ?z = 5 - 2" "length ?y = 5"
    "length (replicate 5 (7::real)) = 5" "length (replicate 15 (7::real)) = 3 * 5"
    "length (replicate 5 (7::real)) = 5" by simp_all
  from reduced_system_assembly [OF h]
  have t: "\<forall>t<length (active_list ?z (5 - 2)).
        fst (assembled 5 ?y ?z 1 (replicate 5 7) (replicate 15 7) (replicate 5 7))
          ! (t + 2 * length (active_list ?z (5 - 2))) = 6 \<and>
        fst (assembled 5 ?y ?z 1 (replicate 5 7) (replicate 15 7) (replicate 5 7))
          ! (t + length (active_list ?z (5 - 2))) =
          (if int (active_list ?z (5 - 2) ! t) - band_prev (active_list ?z (5 - 2)) t = 1 then - 4
           else if int (active_list ?z (5 - 2) ! t) - band_prev (active_list ?z (5 - 2)) t = 2
           then 1 else 0) \<and>
        fst (assembled 5 ?y ?z 1 (replicate 5 7) (replicate 15 7) (replicate 5 7)) ! t =
          (if int (active_list ?z (5 - 2) ! t) - band_prev2 (active_list ?z (5 - 2)) t = 2
           then 1 else 0)"
    by blast
  have t2: "fst (assembled 5 ?y ?z 1 (replicate 5 7) (replicate 15 7) (replicate 5 7))
          ! (2 + 2 * 3) = 6 \<and>
        fst (assembled 5 ?y ?z 1 (replicate 5 7) (replicate 15 7) (replicate 5 7))
          ! (2 + 3) = - 4 \<and>
        fst (assembled 5 ?y ?z 1 (replicate 5 7) (replicate 15 7) (replicate 5 7)) ! 2 = 1"
    using t [unfolded acts, rule_format, of 2]
    by (simp add: band_prev_def band_prev2_def)
  from acts d a t2 show ?thesis by blast
qed

text \<open>
  \<^bold>\<open>Claim C9.\<close>  \<^verbatim>\<open>update_dual\<close> returns \<open>n - 2\<close> minus the number of indices
  \<open>i < n - 2\<close> with \<open>z\<^sub>i\<close> equal to \<open>1\<close> or \<open>-1\<close> in the \<open>z\<close> it is called with, whatever
  the solver does afterwards; the driver stores this value in \<^verbatim>\<open>n_active\<close>, and it is
  the third number of the status line of the iteration.
\<close>

theorem update_dual_active_count:
  assumes "4 \<le> n"
  shows "ud_k (update_dual dpbsv n y z lambda div_zi ab b) =
       n - 2 - card {i. i < n - 2 \<and> (z ! i = 1 \<or> z ! i = - 1)} \<and>
     st_n_active (subspace_minimization dpbsv n y lambda s) =
       n - 2 - card {i. i < n - 2 \<and> (st_z s ! i = 1 \<or> st_z s ! i = - 1)} \<and>
     (\<forall>s'. iteration_head dpbsv n y lambda m delta_s delta_e True iter s = Inr s' \<longrightarrow>
        st_n_active s' = n - 2 - card {i. i < n - 2 \<and> (st_z s ! i = 1 \<or> st_z s ! i = - 1)} \<and>
        last (st_stderr s') = Status_Line iter (st_n_vio s') (st_n_active s') (st_p s'))"
proof -
  have a: "\<forall>s'. iteration_head dpbsv n y lambda m delta_s delta_e True iter s = Inr s' \<longrightarrow>
        st_n_active s' = n - 2 - card {i. i < n - 2 \<and> (st_z s ! i = 1 \<or> st_z s ! i = - 1)} \<and>
        last (st_stderr s') = Status_Line iter (st_n_vio s') (st_n_active s') (st_p s')"
  proof (intro allI impI)
    fix s' assume h: "iteration_head dpbsv n y lambda m delta_s delta_e True iter s = Inr s'"
    then obtain u where u: "s' = print_status True iter u"
      by (auto simp: iteration_head_eq split: sum.splits)
    have "last (st_stderr s') = Status_Line iter (st_n_vio s') (st_n_active s') (st_p s')"
      by (simp add: u print_status_def)
    with iteration_head_xz(3) [OF h]
    show "st_n_active s' = n - 2 - card {i. i < n - 2 \<and> (st_z s ! i = 1 \<or> st_z s ! i = - 1)} \<and>
        last (st_stderr s') = Status_Line iter (st_n_vio s') (st_n_active s') (st_p s')"
      by simp
  qed
  show ?thesis
    using a by (simp add: update_dual_k subspace_minimization_n_active)
qed

theorem update_dual_active_count_witness:
  "ud_k (update_dual dpbsv_exact 4 [0, 3, 0, 0] [1, 0] 1 (replicate 4 0) (replicate 12 0)
      (replicate 4 0)) = 1 \<and>
   card {i. i < 4 - 2 \<and> ([1, 0 :: real] ! i = 1 \<or> [1, 0 :: real] ! i = - 1)} = 1 \<and>
   map_sum id (\<lambda>t. st_stderr t)
     (iteration_head dpbsv_exact 4 [0, 3, 0, 0] 1 5 (4 / 5) (11 / 10) True 1 impulse_start)
     = Inr [Rule_Line, Header_Line, Status_Line 1 1 2 (11 / 20)] \<and>
   st_n_active (projr
     (iteration_head dpbsv_exact 4 [0, 3, 0, 0] 1 5 (4 / 5) (11 / 10) True 1 impulse_start)) =
     4 - 2 - card {i. i < 4 - 2 \<and> (st_z impulse_start ! i = 1 \<or> st_z impulse_start ! i = - 1)}"
proof -
  let ?h = "iteration_head dpbsv_exact 4 [0, 3, 0, 0] 1 5 (4 / 5) (11 / 10) True 1 impulse_start"
  have e: "ud_k (update_dual dpbsv_exact 4 [0, 3, 0, 0] [1, 0] 1 (replicate 4 0) (replicate 12 0)
      (replicate 4 0)) = 1" by code_simp
  have r: "?h = Inr (projr ?h)" by code_simp
  have l: "map_sum id (\<lambda>t. st_stderr t) ?h =
      Inr [Rule_Line, Header_Line, Status_Line 1 1 2 (11 / 20)]" by code_simp
  have h: "(4::nat) \<le> 4" by simp
  note t = update_dual_active_count [OF h]
  from t [of dpbsv_exact "[0, 3, 0, 0]" "[1, 0]" 1 "replicate 4 0" "replicate 12 0" "replicate 4 0"]
  have "ud_k (update_dual dpbsv_exact 4 [0, 3, 0, 0] [1, 0] 1 (replicate 4 0) (replicate 12 0)
      (replicate 4 0)) = 4 - 2 - card {i. i < 4 - 2 \<and> ([1, 0 :: real] ! i = 1 \<or> [1, 0 :: real] ! i = - 1)}"
    by blast
  moreover have "card {i. i < 4 - 2 \<and> ([1, 0 :: real] ! i = 1 \<or> [1, 0 :: real] ! i = - 1)} \<le> card {i. i < (2::nat)}"
    by (rule card_mono) auto
  ultimately have c: "card {i. i < 4 - 2 \<and> ([1, 0 :: real] ! i = 1 \<or> [1, 0 :: real] ! i = - 1)} = 1"
    using e by simp
  from t [where dpbsv = dpbsv_exact and y = "[0, 3, 0, 0]" and lambda = 1 and s = impulse_start
      and m = 5 and delta_s = "4 / 5" and delta_e = "11 / 10" and iter = 1] r
  have n: "st_n_active (projr ?h) =
     4 - 2 - card {i. i < 4 - 2 \<and> (st_z impulse_start ! i = 1 \<or> st_z impulse_start ! i = - 1)}"
    by blast
  from e c l n show ?thesis by blast
qed

text \<open>
  \<^bold>\<open>Claim C7.\<close>  Let \<open>m \<ge> 1\<close> and let the driver have completed \<open>k\<close> iterations without
  returning (\<^const>\<open>state_before\<close> gives the state before iteration \<open>k + 1\<close>).  Let \<open>h\<close> be
  the violator counts pushed so far, oldest first (\<^const>\<open>pushed_counts\<close>: the count of
  an iteration is pushed unless it is neither below \<^verbatim>\<open>min_queue\<close> nor below
  \<^verbatim>\<open>max_queue\<close>).  Then \<^verbatim>\<open>queue_index\<close> is \<open>length h mod m\<close>; \<^verbatim>\<open>vio_queue\<close>, read
  cyclically from \<^verbatim>\<open>queue_index\<close>, is the last \<open>m\<close> entries of \<open>m\<close> copies of \<open>n\<close>
  followed by \<open>h\<close>; \<^verbatim>\<open>min_queue\<close> and \<^verbatim>\<open>max_queue\<close> are the minimum and the maximum
  of the \<open>m\<close> entries of \<^verbatim>\<open>vio_queue\<close>, found at \<^verbatim>\<open>min_queue_index\<close> and
  \<^verbatim>\<open>max_queue_index\<close>.
\<close>

theorem safeguard_queue_invariant:
  assumes n: "4 \<le> n" and m: "1 \<le> m" and len: "length (st_vio_queue s) = m"
    and reach: "state_before dpbsv qsort n y lambda m delta_s delta_e verbose
                  (initial_state n x z p m verbose s) k = Some t"
  shows "length (st_vio_queue t) = m \<and>
     st_queue_index t =
       length (pushed_counts dpbsv qsort n y lambda m delta_s delta_e verbose
                 (initial_state n x z p m verbose s) k) mod m \<and>
     rotate (st_queue_index t) (st_vio_queue t) =
       drop (length (pushed_counts dpbsv qsort n y lambda m delta_s delta_e verbose
                       (initial_state n x z p m verbose s) k))
         (replicate m n @
          pushed_counts dpbsv qsort n y lambda m delta_s delta_e verbose
            (initial_state n x z p m verbose s) k) \<and>
     st_min_queue t = Min (set (st_vio_queue t)) \<and>
     st_max_queue t = Max (set (st_vio_queue t)) \<and>
     st_min_queue_index t < m \<and> st_vio_queue t ! st_min_queue_index t = st_min_queue t \<and>
     st_max_queue_index t < m \<and> st_vio_queue t ! st_max_queue_index t = st_max_queue t"
proof -
  have m0: "0 < m" and n0: "0 < n" using m n by simp_all
  have inv: "queue_inv n m t" by (rule state_before_queue_inv [OF len m0 n0 reach])
  note ex = queue_inv_extrema [OF inv m0]
  from state_before_history [OF len m0 n0 reach]
  have h: "st_queue_index t =
       length (pushed_counts dpbsv qsort n y lambda m delta_s delta_e verbose
                 (initial_state n x z p m verbose s) k) mod m"
    "rotate (st_queue_index t) (st_vio_queue t) =
       drop (length (pushed_counts dpbsv qsort n y lambda m delta_s delta_e verbose
                       (initial_state n x z p m verbose s) k))
         (replicate m n @
          pushed_counts dpbsv qsort n y lambda m delta_s delta_e verbose
            (initial_state n x z p m verbose s) k)"
    unfolding queue_history_def by blast+
  from inv [unfolded queue_inv_def]
  have q: "length (st_vio_queue t) = m" "st_min_queue_index t < m"
    "st_vio_queue t ! st_min_queue_index t = st_min_queue t"
    "st_max_queue_index t < m" "st_vio_queue t ! st_max_queue_index t = st_max_queue t"
    by blast+
  from q h ex show ?thesis by blast
qed

text \<open>
  \<^bold>\<open>Claim C8.\<close>  For \<open>n \<ge> 4\<close> and \<open>m \<ge> 1\<close> the driver returns, with status \<open>0\<close> or
  \<open>-1\<close>.  The status is \<open>0\<close> exactly when one of the first \<open>maxiter\<close> iterations finds
  \<open>n_vio = 0\<close> (\<^const>\<open>found_n_vio\<close> at \<open>k\<close> is the count that iteration \<open>k + 1\<close> finds,
  if the driver gets there).  With status \<open>-1\<close> the driver has completed \<open>maxiter\<close>
  iterations and \<^verbatim>\<open>x\<close> and \<^verbatim>\<open>z\<close> are as the last of them left them.
\<close>

theorem active_set_status:
  assumes n: "4 \<le> n" and m: "1 \<le> m" and len: "length (st_vio_queue s) = m"
  shows "\<exists>st t. active_set dpbsv qsort n y lambda x z p m delta_s delta_e maxiter verbose s
         = Inr (st, t) \<and>
     (st = 0 \<or> st = - 1) \<and>
     (st = 0 \<longleftrightarrow>
        (\<exists>k<maxiter. found_n_vio dpbsv qsort n y lambda m delta_s delta_e verbose
                        (initial_state n x z p m verbose s) k = Some 0)) \<and>
     (st = - 1 \<longrightarrow>
        (\<exists>u. state_before dpbsv qsort n y lambda m delta_s delta_e verbose
                (initial_state n x z p m verbose s) maxiter = Some u \<and>
             st_x t = st_x u \<and> st_z t = st_z u))"
proof -
  let ?s0 = "initial_state n x z p m verbose s"
  have m0: "0 < m" and n0: "0 < n" using m n by simp_all
  have inv0: "queue_inv n m ?s0" by (rule initial_state_queue_inv [OF len m0 n0])
  have s0: "state_before dpbsv qsort n y lambda m delta_s delta_e verbose ?s0 0 = Some ?s0"
    by simp
  from active_set_loop_result [OF m0 inv0 le0 s0, of maxiter]
  show ?thesis
  proof
    assume "\<exists>j u t0. 0 \<le> j \<and> j < maxiter \<and>
        state_before dpbsv qsort n y lambda m delta_s delta_e verbose ?s0 j = Some u \<and>
        iteration_head dpbsv n y lambda m delta_s delta_e verbose (Suc j) u = Inr t0 \<and>
        st_n_vio t0 = 0 \<and>
        active_set_loop dpbsv qsort n y lambda m delta_s delta_e maxiter verbose (Suc 0) ?s0 =
          Inr (0, print_line verbose [Solved_Line] t0)"
    then obtain j u t0 where j: "j < maxiter"
      "state_before dpbsv qsort n y lambda m delta_s delta_e verbose ?s0 j = Some u"
      "iteration_head dpbsv n y lambda m delta_s delta_e verbose (Suc j) u = Inr t0"
      "st_n_vio t0 = 0"
      "active_set_loop dpbsv qsort n y lambda m delta_s delta_e maxiter verbose (Suc 0) ?s0 =
          Inr (0, print_line verbose [Solved_Line] t0)" by blast
    have f: "found_n_vio dpbsv qsort n y lambda m delta_s delta_e verbose ?s0 j = Some 0"
      by (simp add: found_n_vio_def j(2,3,4))
    have "active_set dpbsv qsort n y lambda x z p m delta_s delta_e maxiter verbose s =
        Inr (0, print_line verbose [Solved_Line] t0)"
      using j(5) by (simp add: active_set_def)
    with f j(1) show ?thesis by auto
  next
    assume a: "(\<forall>j. 0 \<le> j \<and> j < maxiter \<longrightarrow>
            found_n_vio dpbsv qsort n y lambda m delta_s delta_e verbose ?s0 j \<noteq> Some 0) \<and>
         (\<exists>u. state_before dpbsv qsort n y lambda m delta_s delta_e verbose ?s0 maxiter = Some u \<and>
            active_set_loop dpbsv qsort n y lambda m delta_s delta_e maxiter verbose (Suc 0) ?s0 =
              Inr (- 1, print_line verbose [Maxiter_Line] u))"
    then obtain u where u:
      "state_before dpbsv qsort n y lambda m delta_s delta_e verbose ?s0 maxiter = Some u"
      "active_set_loop dpbsv qsort n y lambda m delta_s delta_e maxiter verbose (Suc 0) ?s0 =
              Inr (- 1, print_line verbose [Maxiter_Line] u)" by blast
    from a have nf: "\<not> (\<exists>k<maxiter.
        found_n_vio dpbsv qsort n y lambda m delta_s delta_e verbose ?s0 k = Some 0)" by simp
    have "active_set dpbsv qsort n y lambda x z p m delta_s delta_e maxiter verbose s =
        Inr (- 1, print_line verbose [Maxiter_Line] u)"
      using u(2) by (simp add: active_set_def)
    with nf u(1) show ?thesis by (auto simp: print_frame)
  qed
qed



















theorem safeguard_queue_invariant_witness:
  "pushed_counts dpbsv_exact qsort_insertion 4 [0, 0, 0, 16] 1 3 (4 / 5) (11 / 10) True
     (warm_start 3) 2 = [2, 2] \<and>
   st_vio_queue (the (warm_state 3 2)) = [2, 2, 4] \<and>
   st_queue_index (the (warm_state 3 2)) = 2 \<and>
   rotate 2 [2, 2, 4 :: nat] = drop 2 (replicate 3 4 @ [2, 2]) \<and>
   st_min_queue (the (warm_state 3 2)) = 2 \<and> st_max_queue (the (warm_state 3 2)) = 4 \<and>
   st_min_queue (the (warm_state 3 2)) = Min (set (st_vio_queue (the (warm_state 3 2)))) \<and>
   st_max_queue (the (warm_state 3 2)) = Max (set (st_vio_queue (the (warm_state 3 2))))"
proof -
  let ?t = "the (warm_state 3 2)"
  have e: "pushed_counts dpbsv_exact qsort_insertion 4 [0, 0, 0, 16] 1 3 (4 / 5) (11 / 10) True
     (warm_start 3) 2 = [2, 2]"
    "st_vio_queue ?t = [2, 2, 4]" "st_queue_index ?t = 2"
    "st_min_queue ?t = 2" "st_max_queue ?t = 4"
    by code_simp+
  have r: "state_before dpbsv_exact qsort_insertion 4 [0, 0, 0, 16] 1 3 (4 / 5) (11 / 10) True
      (initial_state 4 [0, 0, 0, 0] [1, 1] (1 / 10) 3 True (zeroed_state 4 3)) 2 = Some ?t"
    by code_simp
  have h: "(4::nat) \<le> 4" "(1::nat) \<le> 3" "length (st_vio_queue (zeroed_state 4 3)) = 3"
    by (simp_all add: zeroed_state_def)
  from safeguard_queue_invariant [OF h r, folded warm_start_def, unfolded e]
  have "rotate 2 [2, 2, 4 :: nat] = drop (length [2, 2 :: nat]) (replicate 3 4 @ [2, 2])"
    and "st_min_queue ?t = Min (set (st_vio_queue ?t))"
    and "st_max_queue ?t = Max (set (st_vio_queue ?t))"
    by (simp_all add: e)
  with e show ?thesis by simp
qed

theorem active_set_status_witness:
  "map_sum id fst (impulse_run 2) = Inr 0 \<and>
   (\<exists>k<2. found_n_vio dpbsv_exact qsort_insertion 4 [0, 3, 0, 0] 1 5 (4 / 5) (11 / 10) True
             impulse_start k = Some 0) \<and>
   map_sum id fst (impulse_run 1) = Inr (- 1) \<and>
   \<not> (\<exists>k<1. found_n_vio dpbsv_exact qsort_insertion 4 [0, 3, 0, 0] 1 5 (4 / 5) (11 / 10) True
             impulse_start k = Some 0)"
proof -
  have r2: "impulse_run 2 = Inr (0, snd (projr (impulse_run 2)))" by code_simp
  have r1: "impulse_run 1 = Inr (- 1, snd (projr (impulse_run 1)))" by code_simp
  have h: "(4::nat) \<le> 4" "(1::nat) \<le> 5" "length (st_vio_queue (zeroed_state 4 5)) = 5"
    by (simp_all add: zeroed_state_def)
  from active_set_status [OF h, of dpbsv_exact qsort_insertion "[0, 3, 0, 0]" 1 "[0, 0, 0, 0]"
      "[0, 0]" "1 / 2" "4 / 5" "11 / 10" 2 True, folded impulse_run_def impulse_start_def]
  have a: "\<exists>k<2. found_n_vio dpbsv_exact qsort_insertion 4 [0, 3, 0, 0] 1 5 (4 / 5) (11 / 10) True
             impulse_start k = Some 0"
    using r2 by auto
  from active_set_status [OF h, of dpbsv_exact qsort_insertion "[0, 3, 0, 0]" 1 "[0, 0, 0, 0]"
      "[0, 0]" "1 / 2" "4 / 5" "11 / 10" 1 True, folded impulse_run_def impulse_start_def]
  have b: "\<not> (\<exists>k<1. found_n_vio dpbsv_exact qsort_insertion 4 [0, 3, 0, 0] 1 5 (4 / 5) (11 / 10)
             True impulse_start k = Some 0)"
    using r1 by auto
  have s2: "map_sum id fst (impulse_run 2) = Inr 0" by (subst r2) simp
  have s1: "map_sum id fst (impulse_run 1) = Inr (- 1)" by (subst r1) simp
  from s2 a s1 b show ?thesis by blast
qed

text \<open>
  \<^bold>\<open>Claim C6.\<close>  In the branch \<open>n_vio \<ge> max_queue\<close> the source computes
  \<^verbatim>\<open>max(delta_s * p, 1 / n_vio)\<close> with the integer quotient \<^verbatim>\<open>1 / n_vio\<close>, which is
  \<open>0\<close> as soon as \<open>n_vio \<ge> 2\<close>: the new proportion is \<open>delta_s * p\<close> even when that
  is below \<open>1 / n_vio\<close>.  The queue and \<^verbatim>\<open>queue_index\<close> are left alone in this branch.
  The run below starts from \<open>z = 0\<close> with \<open>n = 5\<close>, \<open>y = (0, 20, 0, 0, 0)\<close>, \<open>\<lambda> = 1\<close>,
  \<open>p = 1/10\<close>, \<open>m = 1\<close>, \<open>\<delta>\<^sub>s = 4/5\<close>, \<open>\<delta>\<^sub>e = 11/10\<close> and \<open>maxiter = 2\<close>.  Both
  iterations find two violators; the second takes the branch with \<open>p = 11/100\<close> and
  leaves \<open>p = 11/125\<close>, below \<open>1/2\<close>.
\<close>

theorem stagnation_branch_integer_quotient:
  "(\<not> st_n_vio s < st_min_queue s \<and> st_max_queue s \<le> st_n_vio s \<and> st_n_vio s \<noteq> 0 \<longrightarrow>
      update_queue n m delta_s delta_e s =
        Inr (s\<lparr>st_p := c_max (delta_s * st_p s) (if st_n_vio s = 1 then 1 else 0)\<rparr>)) \<and>
   map_sum id (\<lambda>(st, t). (st, st_p t, st_stderr t)) (stagnant_run 2) =
     Inr (- 1, 11 / 125,
          [Rule_Line, Header_Line, Status_Line 1 2 3 (11 / 100), Status_Line 2 2 2 (11 / 125),
           Maxiter_Line]) \<and>
   (11 / 125 :: real) < 1 / 2"
proof -
  have q: "real (1 div st_n_vio s) = (if st_n_vio s = 1 then 1 else 0)"
    by (cases "st_n_vio s = 1") (auto simp: div_eq_0_iff)
  have a: "\<not> st_n_vio s < st_min_queue s \<and> st_max_queue s \<le> st_n_vio s \<and> st_n_vio s \<noteq> 0 \<longrightarrow>
      update_queue n m delta_s delta_e s =
        Inr (s\<lparr>st_p := c_max (delta_s * st_p s) (if st_n_vio s = 1 then 1 else 0)\<rparr>)"
    using update_queue_stagnation [of s n m delta_s delta_e] by (simp only: q) blast
  have b: "map_sum id (\<lambda>(st, t). (st, st_p t, st_stderr t)) (stagnant_run 2) =
     Inr (- 1, 11 / 125,
          [Rule_Line, Header_Line, Status_Line 1 2 3 (11 / 100), Status_Line 2 2 2 (11 / 125),
           Maxiter_Line])"
    by code_simp
  from a b show ?thesis by simp
qed

theorem stagnation_branch_integer_quotient_witness:
  "update_queue 5 3 (4 / 5) (11 / 10)
     (zeroed_state 5 3\<lparr>st_p := 11 / 100, st_vio_queue := [2, 3, 3], st_queue_index := 1,
        st_min_queue := 2, st_max_queue := 3, st_max_queue_index := 1, st_n_vio := 3\<rparr>) =
   Inr (zeroed_state 5 3\<lparr>st_p := 11 / 125, st_vio_queue := [2, 3, 3], st_queue_index := 1,
          st_min_queue := 2, st_max_queue := 3, st_max_queue_index := 1, st_n_vio := 3\<rparr>) \<and>
   (11 / 125 :: real) < 1 / 3"
proof -
  let ?s = "zeroed_state 5 3\<lparr>st_p := 11 / 100, st_vio_queue := [2, 3, 3], st_queue_index := 1,
        st_min_queue := 2, st_max_queue := 3, st_max_queue_index := 1, st_n_vio := 3\<rparr>"
  have h: "\<not> st_n_vio ?s < st_min_queue ?s \<and> st_max_queue ?s \<le> st_n_vio ?s \<and> st_n_vio ?s \<noteq> 0"
    by simp
  from stagnation_branch_integer_quotient [of ?s 5 3 "4 / 5" "11 / 10"] h
  have "update_queue 5 3 (4 / 5) (11 / 10) ?s =
      Inr (?s\<lparr>st_p := c_max (4 / 5 * st_p ?s) (if st_n_vio ?s = 1 then 1 else 0)\<rparr>)"
    by blast
  then show ?thesis by (simp add: c_max_def)
qed

lemma Dx_nth:
  assumes len: "n - 2 \<le> length y"
  shows "length (Dx n x y) = length y"
    and "i < n - 2 \<Longrightarrow> Dx n x y ! i = - (x ! i) + 2 * x ! (i + 1) - x ! (i + 2)"
proof -
  have inv: "case fold (Dx_body x) [0..<n - 2] (0, 0, y) of (px, py, y') \<Rightarrow>
      px = n - 2 \<and> py = n - 2 \<and> length y' = length y \<and>
      (\<forall>i<n - 2. y' ! i = - (x ! i) + 2 * x ! (i + 1) - x ! (i + 2))"
  proof (rule fold_upt_invariant [where P = "\<lambda>m t. case t of (px, py, y') \<Rightarrow>
      px = m \<and> py = m \<and> length y' = length y \<and>
      (\<forall>i<m. y' ! i = - (x ! i) + 2 * x ! (i + 1) - x ! (i + 2))"])
    fix i t
    assume i: "i < n - 2"
      and t: "case t of (px, py, y') \<Rightarrow>
        px = i \<and> py = i \<and> length y' = length y \<and>
        (\<forall>j<i. y' ! j = - (x ! j) + 2 * x ! (j + 1) - x ! (j + 2))"
    obtain px py y' where e: "t = (px, py, y')" by (metis prod_cases3)
    from t [unfolded e prod.case]
    have a: "px = i" "py = i" "length y' = length y"
      "\<And>j. j < i \<Longrightarrow> y' ! j = - (x ! j) + 2 * x ! (j + 1) - x ! (j + 2)" by blast+
    have lt: "i < length y'" using i len a(3) by simp
    show "case Dx_body x i t of (px, py, y') \<Rightarrow>
        px = Suc i \<and> py = Suc i \<and> length y' = length y \<and>
        (\<forall>j<Suc i. y' ! j = - (x ! j) + 2 * x ! (j + 1) - x ! (j + 2))"
      unfolding e Dx_body_def prod.case using a lt
      by (auto simp: nth_list_update less_Suc_eq)
  qed simp_all
  obtain px py y' where e: "fold (Dx_body x) [0..<n - 2] (0, 0, y) = (px, py, y')"
    by (metis prod_cases3)
  from inv [unfolded e prod.case]
  have a: "length y' = length y"
    "\<And>i. i < n - 2 \<Longrightarrow> y' ! i = - (x ! i) + 2 * x ! (i + 1) - x ! (i + 2)" by blast+
  show "length (Dx n x y) = length y" by (simp add: Dx_def e a(1))
  show "i < n - 2 \<Longrightarrow> Dx n x y ! i = - (x ! i) + 2 * x ! (i + 1) - x ! (i + 2)"
    by (simp add: Dx_def e a(2))
qed

end
